theory Spec2Isabelle
  imports Main "HOL-Library.Multiset"
begin

section \<open>Go values and scheduling shared by all components\<close>

text \<open>
  The program of \<^verbatim>\<open>main.go\<close> is a set of goroutines that communicate over unbuffered
  channels and one \<^verbatim>\<open>context.Context\<close> made by \<^verbatim>\<open>context.WithCancel\<close>. Each goroutine
  is embedded as a transition function on its own state: one transition per blocking
  operation of the source (a \<^verbatim>\<open>select\<close>, a channel operation, a semaphore call), labelled
  with the event that resolved it. A transition that the goroutine cannot take in its
  present state is \<open>None\<close>. The scheduler and the peers on the other end of a channel are
  the list of events a run is executed on.

  The context is the flag "cancel has been called": \<^verbatim>\<open>ctx.Done()\<close> is ready exactly when it
  is set, and it is never reset.
\<close>

type_synonym go_error = "string option"
  \<comment> \<open>a Go \<^verbatim>\<open>error\<close>: \<open>None\<close> is \<^verbatim>\<open>nil\<close>, \<open>Some m\<close> an error whose \<^verbatim>\<open>Error()\<close> is \<open>m\<close>\<close>

datatype 'a recv = Got 'a | Closed
  \<comment> \<open>what a receive yields: a value sent by a peer, or the report that the channel is closed\<close>

definition ctx_Err :: "bool \<Rightarrow> go_error" where
  "ctx_Err cancelled = (if cancelled then Some ''context canceled'' else None)"

fun exec :: "('e \<Rightarrow> 's \<Rightarrow> 's option) \<Rightarrow> 'e list \<Rightarrow> 's \<Rightarrow> 's option" where
  "exec st [] s = Some s"
| "exec st (e # es) s = (case st e s of None \<Rightarrow> None | Some s' \<Rightarrow> exec st es s')"

datatype 'e env = Cancel | Ev 'e
  \<comment> \<open>a component on its own: its events, and the cancel function called by somebody else\<close>

fun with_ctx :: "(bool \<Rightarrow> 'e \<Rightarrow> 's \<Rightarrow> 's option) \<Rightarrow> 'e env \<Rightarrow> bool \<times> 's \<Rightarrow> (bool \<times> 's) option" where
  "with_ctx st Cancel (c, s) = Some (True, s)"
| "with_ctx st (Ev e) (c, s) = (case st c e s of None \<Rightarrow> None | Some s' \<Rightarrow> Some (c, s'))"

section \<open>The sink\<close>

text \<open>
  \<^verbatim>\<open>sink\<close> runs in the main goroutine: an endless loop around one \<^verbatim>\<open>select\<close> with three
  cases. Its state is what it has logged (the lines without the logger's time stamp), how
  often it has called \<^verbatim>\<open>cancelFunc\<close>, and whether it has returned. It is the one component
  that writes the context, so its transition works on the pair of the context and its
  state. \<^verbatim>\<open>log.Println("error: ", m)\<close> puts a blank between its operands.
\<close>

record sink_state =
  sink_log :: "string list"
  sink_cancels :: nat
  sink_returned :: bool

datatype sink_event =
    SinkCtxDone
  | SinkErr "go_error recv"
  | SinkVal "string recv"

definition recv_error :: "go_error recv \<Rightarrow> go_error" where
  "recv_error r = (case r of Got e \<Rightarrow> e | Closed \<Rightarrow> None)"
  \<comment> \<open>\<^verbatim>\<open>err := <-errors\<close>: a closed channel yields the zero value, \<^verbatim>\<open>nil\<close>\<close>

definition sink :: sink_state where
  "sink = \<lparr>sink_log = [], sink_cancels = 0, sink_returned = False\<rparr>"

fun sink_go :: "sink_event \<Rightarrow> bool \<times> sink_state \<Rightarrow> (bool \<times> sink_state) option" where
  "sink_go SinkCtxDone (c, s) =
     (if sink_returned s then None
      else case ctx_Err c of
        None \<Rightarrow> None
      | Some m \<Rightarrow> Some (c, s\<lparr>sink_log := sink_log s @ [m], sink_returned := True\<rparr>))"
| "sink_go (SinkErr r) (c, s) =
     (if sink_returned s then None
      else case recv_error r of
        Some m \<Rightarrow>
          Some (True, s\<lparr>sink_log := sink_log s @ [''error:  '' @ m],
                         sink_cancels := sink_cancels s + 1\<rparr>)
      | None \<Rightarrow> Some (c, s))"
| "sink_go (SinkVal r) (c, s) =
     (if sink_returned s then None
      else case r of
        Got val \<Rightarrow> Some (c, s\<lparr>sink_log := sink_log s @ [''sink: '' @ val]\<rparr>)
      | Closed \<Rightarrow> Some (c, s\<lparr>sink_log := sink_log s @ [''done''], sink_returned := True\<rparr>))"

section \<open>The producer\<close>

text \<open>
  The goroutine started by \<^verbatim>\<open>producer\<close> ranges over the slice; each iteration is a
  \<^verbatim>\<open>select\<close> between \<^verbatim>\<open>ctx.Done()\<close> (return) and the send of the current element. The
  deferred \<^verbatim>\<open>close(outChannel)\<close> runs when the goroutine leaves, by return or at the end of
  the range. \<open>prod_sent\<close> records the values handed over on \<^verbatim>\<open>outChannel\<close>, in order, and
  \<open>prod_closes\<close> counts the executions of \<^verbatim>\<open>close\<close>.
\<close>

record producer_state =
  prod_items :: "string list"
  prod_sent :: "string list"
  prod_closes :: nat
  prod_exited :: bool

datatype producer_event =
    ProdCtxDone
  | ProdSend string
  | ProdRangeEnd

definition producer :: "string list \<Rightarrow> producer_state \<times> go_error" where
  "producer strings =
     (\<lparr>prod_items = strings, prod_sent = [], prod_closes = 0, prod_exited = False\<rparr>, None)"

definition producer_exit :: "producer_state \<Rightarrow> producer_state" where
  "producer_exit p = p\<lparr>prod_closes := prod_closes p + 1, prod_exited := True\<rparr>"

fun producer_go :: "bool \<Rightarrow> producer_event \<Rightarrow> producer_state \<Rightarrow> producer_state option" where
  "producer_go c ProdCtxDone p =
     (if \<not> prod_exited p \<and> prod_items p \<noteq> [] \<and> c then Some (producer_exit p) else None)"
| "producer_go c (ProdSend v) p =
     (if prod_exited p then None
      else case prod_items p of
        [] \<Rightarrow> None
      | s # rest \<Rightarrow>
          if v = s then Some (p\<lparr>prod_items := rest, prod_sent := prod_sent p @ [s]\<rparr>) else None)"
| "producer_go c ProdRangeEnd p =
     (if \<not> prod_exited p \<and> prod_items p = [] then Some (producer_exit p) else None)"

section \<open>The stage\<close>

text \<open>
  The weighted semaphore of \<^verbatim>\<open>golang.org/x/sync/semaphore\<close>, as its documentation gives
  it: \<^verbatim>\<open>Acquire(ctx, n)\<close> blocks until \<open>n\<close> units are free or the context is done; it
  returns \<^verbatim>\<open>nil\<close> after taking the units, or \<^verbatim>\<open>ctx.Err()\<close> leaving the semaphore as it
  was. \<^verbatim>\<open>Release(n)\<close> gives units back and panics when more are released than held.
  The stage's loop is the only goroutine that acquires, so there is no queue of waiters.
\<close>

record semaphore =
  sem_size :: int
  sem_cur :: int

definition NewWeighted :: "int \<Rightarrow> semaphore" where
  "NewWeighted n = \<lparr>sem_size = n, sem_cur = 0\<rparr>"

definition Acquire :: "int \<Rightarrow> semaphore \<Rightarrow> semaphore option" where
  "Acquire n sem =
     (if n \<le> sem_size sem - sem_cur sem then Some (sem\<lparr>sem_cur := sem_cur sem + n\<rparr>) else None)"
  \<comment> \<open>the return with \<^verbatim>\<open>nil\<close>; \<open>None\<close>: the call cannot return \<^verbatim>\<open>nil\<close> now\<close>

definition Release :: "int \<Rightarrow> semaphore \<Rightarrow> semaphore option" where
  "Release n sem =
     (if sem_cur sem - n < 0 then None else Some (sem\<lparr>sem_cur := sem_cur sem - n\<rparr>))"
  \<comment> \<open>\<open>None\<close>: the panic "released more than held"\<close>

text \<open>
  \<^verbatim>\<open>step\<close> starts one goroutine, the loop, which starts one worker goroutine for each item
  it got a permit for. The loop is at its \<^verbatim>\<open>select\<close> (\<open>LSelect\<close>), inside
  \<^verbatim>\<open>sem1.Acquire(ctx, 1)\<close> for the item it has read (\<open>LAcquire\<close>), inside
  \<^verbatim>\<open>sem1.Acquire(ctx, limit)\<close> after its input was closed (\<open>LDrain\<close>), or gone (\<open>LExit\<close>).
  Both \<^verbatim>\<open>break\<close> statements stand inside the \<^verbatim>\<open>select\<close>, so they end the \<^verbatim>\<open>select\<close>
  statement and the \<^verbatim>\<open>for\<close> loop goes round again; the loop is left by the one \<^verbatim>\<open>return\<close>,
  which runs the two deferred closes.

  A worker sleeps (\<open>WSleep\<close>), runs \<^verbatim>\<open>fn\<close> (\<open>WCall\<close>), is at its send of the result or of
  the error (\<open>WSendOut\<close>, \<open>WSendErr\<close>), has sent and still has its deferred
  \<^verbatim>\<open>sem1.Release(1)\<close> to run (\<open>WDeferred\<close>), or is gone (\<open>WDone\<close>). The sends of a worker
  are plain sends. A send on a closed channel panics, which ends the whole program:
  \<open>stage_panic\<close>. The log lines that \<^verbatim>\<open>fn\<close> itself prints are not part of the model.
\<close>

datatype ('i, 'o) worker =
    WSleep 'i
  | WCall 'i
  | WSendOut 'o
  | WSendErr string
  | WDeferred
  | WDone

datatype 'i loop_pc =
    LSelect
  | LAcquire 'i
  | LDrain
  | LExit

record ('i, 'o) stage =
  limit :: int
  sem1 :: semaphore
  loop :: "'i loop_pc"
  workers :: "('i, 'o) worker list"
  out_closes :: nat
  err_closes :: nat
  stage_log :: "string list"
  stage_panic :: bool

datatype 'o worker_event =
    Wake
  | Return
  | SentOut 'o
  | SentErr string
  | SendPanics
  | Released

datatype ('i, 'o) stage_event =
    LoopCtxDone
  | LoopRecv "'i recv"
  | AcquireNil
  | AcquireErr
  | Worker nat "'o worker_event"

definition step :: "('i, 'o) stage" where
  "step = \<lparr>limit = 2, sem1 = NewWeighted 2, loop = LSelect, workers = [],
            out_closes = 0, err_closes = 0, stage_log = [], stage_panic = False\<rparr>"

definition stage_return :: "('i, 'o) stage \<Rightarrow> ('i, 'o) stage" where
  "stage_return s =
     s\<lparr>loop := LExit, err_closes := err_closes s + 1, out_closes := out_closes s + 1\<rparr>"
  \<comment> \<open>\<^verbatim>\<open>return\<close>: the deferred \<^verbatim>\<open>close(errorChannel)\<close>, then \<^verbatim>\<open>close(outputChannel)\<close>\<close>

definition acquire_failed :: "bool \<Rightarrow> string" where
  "acquire_failed c =
     ''Failed to acquire semaphore: '' @ (case ctx_Err c of Some m \<Rightarrow> m | None \<Rightarrow> ''%!v(<nil>)'')"

fun worker_go :: "('i \<Rightarrow> 'o \<times> go_error) \<Rightarrow> ('i, 'o) stage \<Rightarrow> nat \<Rightarrow> ('i, 'o) worker \<Rightarrow>
    'o worker_event \<Rightarrow> ('i, 'o) stage option" where
  "worker_go fn s i (WSleep v) Wake = Some (s\<lparr>workers := (workers s)[i := WCall v]\<rparr>)"
| "worker_go fn s i (WCall v) Return =
     (case fn v of
        (result, Some m) \<Rightarrow> Some (s\<lparr>workers := (workers s)[i := WSendErr m]\<rparr>)
      | (result, None) \<Rightarrow> Some (s\<lparr>workers := (workers s)[i := WSendOut result]\<rparr>))"
| "worker_go fn s i (WSendErr m) (SentErr m') =
     (if m' = m \<and> err_closes s = 0 then Some (s\<lparr>workers := (workers s)[i := WDeferred]\<rparr>)
      else None)"
| "worker_go fn s i (WSendErr m) SendPanics =
     (if 0 < err_closes s then Some (s\<lparr>stage_panic := True\<rparr>) else None)"
| "worker_go fn s i (WSendOut result) (SentOut r') =
     (if r' = result \<and> out_closes s = 0 then Some (s\<lparr>workers := (workers s)[i := WDeferred]\<rparr>)
      else None)"
| "worker_go fn s i (WSendOut result) SendPanics =
     (if 0 < out_closes s then Some (s\<lparr>stage_panic := True\<rparr>) else None)"
| "worker_go fn s i WDeferred Released =
     (case Release 1 (sem1 s) of
        None \<Rightarrow> Some (s\<lparr>stage_panic := True\<rparr>)
      | Some sem' \<Rightarrow> Some (s\<lparr>sem1 := sem', workers := (workers s)[i := WDone]\<rparr>))"
| "worker_go fn s i _ _ = None"

fun loop_go :: "bool \<Rightarrow> ('i, 'o) stage_event \<Rightarrow> ('i, 'o) stage \<Rightarrow> ('i, 'o) stage option" where
  "loop_go c LoopCtxDone s = (if c \<and> loop s = LSelect then Some s else None)"
| "loop_go c (LoopRecv r) s =
     (if loop s = LSelect
      then (case r of
              Got v \<Rightarrow> Some (s\<lparr>loop := LAcquire v\<rparr>)
            | Closed \<Rightarrow> Some (s\<lparr>loop := LDrain\<rparr>))
      else None)"
| "loop_go c AcquireNil s =
     (case loop s of
        LAcquire v \<Rightarrow>
          (case Acquire 1 (sem1 s) of
             None \<Rightarrow> None
           | Some sem' \<Rightarrow>
               Some (s\<lparr>sem1 := sem', workers := workers s @ [WSleep v], loop := LSelect\<rparr>))
      | LDrain \<Rightarrow>
          (case Acquire (limit s) (sem1 s) of
             None \<Rightarrow> None
           | Some sem' \<Rightarrow> Some (stage_return (s\<lparr>sem1 := sem'\<rparr>)))
      | _ \<Rightarrow> None)"
| "loop_go c AcquireErr s =
     (if \<not> c then None
      else case loop s of
        LAcquire v \<Rightarrow>
          Some (s\<lparr>stage_log := stage_log s @ [acquire_failed c], loop := LSelect\<rparr>)
      | LDrain \<Rightarrow> Some (stage_return (s\<lparr>stage_log := stage_log s @ [acquire_failed c]\<rparr>))
      | _ \<Rightarrow> None)"
| "loop_go c (Worker i e) s = None"

definition step_go :: "('i \<Rightarrow> 'o \<times> go_error) \<Rightarrow> bool \<Rightarrow> ('i, 'o) stage_event \<Rightarrow>
    ('i, 'o) stage \<Rightarrow> ('i, 'o) stage option" where
  "step_go fn c ev s =
     (if stage_panic s then None
      else case ev of
        Worker i e \<Rightarrow> (if i < length (workers s) then worker_go fn s i (workers s ! i) e else None)
      | _ \<Rightarrow> loop_go c ev s)"

definition active_calls :: "('i, 'o) stage \<Rightarrow> nat" where
  "active_calls s = length (filter (\<lambda>w. case w of WCall v \<Rightarrow> True | _ \<Rightarrow> False) (workers s))"
  \<comment> \<open>the invocations of \<^verbatim>\<open>fn\<close> that have begun and not returned\<close>

definition holds_permit :: "('i, 'o) worker \<Rightarrow> bool" where
  "holds_permit w = (w \<noteq> WDone)"

section \<open>The merger\<close>

text \<open>
  \<^verbatim>\<open>Merge\<close> adds the number of channels to the wait group, starts one forwarder per channel
  and one goroutine that waits for the group and then closes \<^verbatim>\<open>out\<close>. A forwarder is at
  the receive of its \<^verbatim>\<open>range\<close> (\<open>FRange\<close>), at the \<^verbatim>\<open>select\<close> with the value it holds
  (\<open>FSelect\<close>), or gone after its deferred \<^verbatim>\<open>wg.Done()\<close> (\<open>FDone\<close>).
  \<^verbatim>\<open>wg.Done()\<close> panics on a negative counter, a send on the closed \<^verbatim>\<open>out\<close> panics.
\<close>

datatype 'a forwarder =
    FRange
  | FSelect 'a
  | FDone

record 'a merge_state =
  wg :: int
  forwarders :: "'a forwarder list"
  closer_done :: bool
  merge_closes :: nat
  merge_sent :: "'a list"
  merge_panic :: bool

datatype 'a merge_event =
    FwdRecv nat "'a recv"
  | FwdSent nat 'a
  | FwdCtxDone nat
  | FwdSendPanics nat
  | WaitReturns

definition Merge :: "nat \<Rightarrow> 'a merge_state" where
  "Merge n = \<lparr>wg = int n, forwarders = replicate n FRange, closer_done = False,
               merge_closes = 0, merge_sent = [], merge_panic = False\<rparr>"
  \<comment> \<open>\<open>n\<close> is \<^verbatim>\<open>len(cs)\<close>; forwarder \<open>i\<close> reads \<^verbatim>\<open>cs[i]\<close>\<close>

definition forwarder_return :: "nat \<Rightarrow> 'a merge_state \<Rightarrow> 'a merge_state" where
  "forwarder_return i m =
     (if wg m - 1 < 0 then m\<lparr>merge_panic := True\<rparr>
      else m\<lparr>wg := wg m - 1, forwarders := (forwarders m)[i := FDone]\<rparr>)"

fun forwarder_go :: "bool \<Rightarrow> 'a merge_state \<Rightarrow> nat \<Rightarrow> 'a forwarder \<Rightarrow> 'a merge_event \<Rightarrow>
    'a merge_state option" where
  "forwarder_go c m i FRange (FwdRecv j (Got n)) =
     Some (m\<lparr>forwarders := (forwarders m)[i := FSelect n]\<rparr>)"
| "forwarder_go c m i FRange (FwdRecv j Closed) = Some (forwarder_return i m)"
| "forwarder_go c m i (FSelect n) (FwdSent j n') =
     (if n' = n \<and> merge_closes m = 0
      then Some (m\<lparr>forwarders := (forwarders m)[i := FRange], merge_sent := merge_sent m @ [n]\<rparr>)
      else None)"
| "forwarder_go c m i (FSelect n) (FwdCtxDone j) =
     (if c then Some (forwarder_return i m) else None)"
| "forwarder_go c m i (FSelect n) (FwdSendPanics j) =
     (if 0 < merge_closes m then Some (m\<lparr>merge_panic := True\<rparr>) else None)"
| "forwarder_go c m i _ _ = None"

definition event_forwarder :: "'a merge_event \<Rightarrow> nat option" where
  "event_forwarder ev =
     (case ev of
        FwdRecv i r \<Rightarrow> Some i
      | FwdSent i n \<Rightarrow> Some i
      | FwdCtxDone i \<Rightarrow> Some i
      | FwdSendPanics i \<Rightarrow> Some i
      | WaitReturns \<Rightarrow> None)"

definition Merge_go :: "bool \<Rightarrow> 'a merge_event \<Rightarrow> 'a merge_state \<Rightarrow> 'a merge_state option" where
  "Merge_go c ev m =
     (if merge_panic m then None
      else case event_forwarder ev of
        Some i \<Rightarrow>
          (if i < length (forwarders m) then forwarder_go c m i (forwarders m ! i) ev else None)
      | None \<Rightarrow>
          (if wg m = 0 \<and> \<not> closer_done m
           then Some (m\<lparr>closer_done := True, merge_closes := merge_closes m + 1\<rparr>)
           else None))"

text \<open>
  \<^verbatim>\<open>Merge\<close> fed by finite streams: sender \<open>i\<close> sends the values of its list on \<^verbatim>\<open>cs[i]\<close>, in
  order, and closes the channel after the last one. A send of sender \<open>i\<close> is the receive of
  forwarder \<open>i\<close>; the receive of forwarder \<open>i\<close> reports the closed channel only after the
  close. The sends on \<^verbatim>\<open>out\<close> are taken by a consumer that is always ready.
\<close>

record 'a fan_in =
  sources :: "'a list list"
  source_closed :: "bool list"
  merger :: "'a merge_state"

datatype 'a fan_in_event =
    SourceSend nat
  | SourceClose nat
  | Mrg "'a merge_event"

definition fan_in :: "'a list list \<Rightarrow> 'a fan_in" where
  "fan_in xss = \<lparr>sources = xss, source_closed = replicate (length xss) False,
                  merger = Merge (length xss)\<rparr>"

fun fan_in_go :: "bool \<Rightarrow> 'a fan_in_event \<Rightarrow> 'a fan_in \<Rightarrow> 'a fan_in option" where
  "fan_in_go c (SourceSend i) h =
     (if i < length (sources h) \<and> i < length (source_closed h) \<and> \<not> source_closed h ! i
      then (case sources h ! i of
              [] \<Rightarrow> None
            | v # rest \<Rightarrow>
                (case Merge_go c (FwdRecv i (Got v)) (merger h) of
                   None \<Rightarrow> None
                 | Some m' \<Rightarrow> Some (h\<lparr>sources := (sources h)[i := rest], merger := m'\<rparr>)))
      else None)"
| "fan_in_go c (SourceClose i) h =
     (if i < length (sources h) \<and> i < length (source_closed h) \<and> \<not> source_closed h ! i
         \<and> sources h ! i = []
      then Some (h\<lparr>source_closed := (source_closed h)[i := True]\<rparr>)
      else None)"
| "fan_in_go c (Mrg ev) h =
     (if (case ev of
            FwdRecv i (Got v) \<Rightarrow> False
          | FwdRecv i Closed \<Rightarrow> i < length (source_closed h) \<and> source_closed h ! i
          | _ \<Rightarrow> True)
      then (case Merge_go c ev (merger h) of
              None \<Rightarrow> None
            | Some m' \<Rightarrow> Some (h\<lparr>merger := m'\<rparr>))
      else None)"

definition held :: "'a forwarder \<Rightarrow> 'a list" where
  "held f = (case f of FSelect n \<Rightarrow> [n] | _ \<Rightarrow> [])"

section \<open>The transforms and the assembled pipeline\<close>

text \<open>
  \<^verbatim>\<open>strings.ToLower\<close> and \<^verbatim>\<open>strings.Title\<close> are functions of Go's library, not of this
  program. The two transforms, and with them the assembled program, take the library
  function as a parameter (named as the source names it), so that what is proved of them
  holds for whatever the library computes, on every string.
\<close>

definition transformA :: "(string \<Rightarrow> string) \<Rightarrow> string \<Rightarrow> string \<times> go_error" where
  "transformA ToLower s = (ToLower s, None)"

definition transformB :: "(string \<Rightarrow> string) \<Rightarrow> string \<Rightarrow> string \<times> go_error" where
  "transformB Title s = (if s = ''foo'' then ([], Some ''oh no'') else (Title s, None))"

text \<open>
  To run the program on concrete input the parameters are instantiated with
  \<open>ascii_ToLower\<close> and \<open>ascii_Title\<close>. On a string of ASCII characters they compute what
  the library computes: \<^verbatim>\<open>ToLower\<close> maps \<open>A\<close> to \<open>Z\<close> to lower case; \<^verbatim>\<open>Title\<close> maps a
  letter \<open>a\<close> to \<open>z\<close> to upper case when the character before it (a blank before the
  first) is a separator, which among ASCII characters is anything but a letter, a digit or
  the underscore. On a string with a byte outside ASCII they are not the library's
  functions; they are applied to ASCII strings only, and no property below is stated of
  them elsewhere.
\<close>

definition in_range :: "char \<Rightarrow> char \<Rightarrow> char \<Rightarrow> bool" where
  "in_range lo hi r = ((of_char lo :: nat) \<le> of_char r \<and> (of_char r :: nat) \<le> of_char hi)"

definition ascii_lower :: "char \<Rightarrow> char" where
  "ascii_lower r =
     (if in_range CHR ''A'' CHR ''Z'' r then char_of ((of_char r :: nat) + 32) else r)"

definition ascii_upper :: "char \<Rightarrow> char" where
  "ascii_upper r =
     (if in_range CHR ''a'' CHR ''z'' r then char_of ((of_char r :: nat) - 32) else r)"

definition ascii_isSeparator :: "char \<Rightarrow> bool" where
  "ascii_isSeparator r =
     (\<not> (in_range CHR ''0'' CHR ''9'' r \<or> in_range CHR ''a'' CHR ''z'' r
         \<or> in_range CHR ''A'' CHR ''Z'' r \<or> r = CHR ''_''))"

definition ascii_ToLower :: "string \<Rightarrow> string" where
  "ascii_ToLower s = map ascii_lower s"

fun ascii_title_after :: "char \<Rightarrow> string \<Rightarrow> string" where
  "ascii_title_after prev [] = []"
| "ascii_title_after prev (r # rs) =
     (if ascii_isSeparator prev then ascii_upper r else r) # ascii_title_after r rs"

definition ascii_Title :: "string \<Rightarrow> string" where
  "ascii_Title s = ascii_title_after CHR '' '' s"

text \<open>
  \<^verbatim>\<open>main\<close> wires producer, two stages, the merger of the two error channels and the sink
  on one context. An action of the program is an event of one goroutine alone, or a send
  of one goroutine together with the receive of the goroutine at the other end of the
  channel. A receive reports a closed channel only when the channel's owner has closed
  it. When \<^verbatim>\<open>sink\<close> has returned, \<^verbatim>\<open>main\<close> runs its deferred \<^verbatim>\<open>cancel()\<close> and returns,
  which ends the process; a panic of any goroutine ends it as well.
\<close>

record pipeline =
  ctx :: bool
  readStream :: producer_state
  step1 :: "(string, string) stage"
  step2 :: "(string, string) stage"
  allErrors :: "go_error merge_state"
  the_sink :: sink_state
  main_returned :: bool

datatype action =
    Producer producer_event
  | ProducerToStep1 string
  | Step1 "(string, string) stage_event"
  | Step1ToStep2 nat string
  | Step1ToMerge nat string
  | Step2 "(string, string) stage_event"
  | Step2ToSink nat string
  | Step2ToMerge nat string
  | Merger "go_error merge_event"
  | MergeToSink nat go_error
  | Sink sink_event
  | MainReturn

definition source :: "string list" where
  "source = [''FOO'', ''BAR'', ''BAX'']"

definition main :: pipeline where
  "main =
     (case producer source of
        (stream, err) \<Rightarrow>
          \<lparr>ctx = False, readStream = stream, step1 = step, step2 = step, allErrors = Merge 2,
           the_sink = sink, main_returned = (err \<noteq> None)\<rparr>)"
  \<comment> \<open>\<^verbatim>\<open>log.Fatal(err)\<close> ends the process before anything is started\<close>

definition producer_alone :: "producer_event \<Rightarrow> bool" where
  "producer_alone ev = (case ev of ProdSend v \<Rightarrow> False | _ \<Rightarrow> True)"

definition stage_alone :: "bool \<Rightarrow> ('i, 'o) stage_event \<Rightarrow> bool" where
  "stage_alone input_closed ev =
     (case ev of
        LoopRecv (Got v) \<Rightarrow> False
      | LoopRecv Closed \<Rightarrow> input_closed
      | Worker i (SentOut r) \<Rightarrow> False
      | Worker i (SentErr m) \<Rightarrow> False
      | _ \<Rightarrow> True)"

definition merge_alone :: "(nat \<Rightarrow> bool) \<Rightarrow> 'a merge_event \<Rightarrow> bool" where
  "merge_alone input_closed ev =
     (case ev of
        FwdRecv i (Got v) \<Rightarrow> False
      | FwdRecv i Closed \<Rightarrow> input_closed i
      | FwdSent i n \<Rightarrow> False
      | _ \<Rightarrow> True)"

definition sink_alone :: "bool \<Rightarrow> bool \<Rightarrow> sink_event \<Rightarrow> bool" where
  "sink_alone errors_closed values_closed ev =
     (case ev of
        SinkCtxDone \<Rightarrow> True
      | SinkErr (Got e) \<Rightarrow> False
      | SinkErr Closed \<Rightarrow> errors_closed
      | SinkVal (Got v) \<Rightarrow> False
      | SinkVal Closed \<Rightarrow> values_closed)"

definition errors_closed :: "pipeline \<Rightarrow> nat \<Rightarrow> bool" where
  "errors_closed s i =
     (if i = 0 then 0 < err_closes (step1 s) else if i = 1 then 0 < err_closes (step2 s) else False)"
  \<comment> \<open>\<^verbatim>\<open>Merge(ctx, step1errors, step2errors)\<close>\<close>

fun action_go :: "(string \<Rightarrow> string) \<Rightarrow> (string \<Rightarrow> string) \<Rightarrow> action \<Rightarrow> pipeline \<Rightarrow>
    pipeline option" where
  "action_go ToLower Title (Producer ev) s =
     (if producer_alone ev
      then map_option (\<lambda>p. s\<lparr>readStream := p\<rparr>) (producer_go (ctx s) ev (readStream s))
      else None)"
| "action_go ToLower Title (ProducerToStep1 v) s =
     (case (producer_go (ctx s) (ProdSend v) (readStream s),
            step_go (transformA ToLower) (ctx s) (LoopRecv (Got v)) (step1 s)) of
        (Some p, Some st) \<Rightarrow> Some (s\<lparr>readStream := p, step1 := st\<rparr>)
      | _ \<Rightarrow> None)"
| "action_go ToLower Title (Step1 ev) s =
     (if stage_alone (0 < prod_closes (readStream s)) ev
      then map_option (\<lambda>st. s\<lparr>step1 := st\<rparr>) (step_go (transformA ToLower) (ctx s) ev (step1 s))
      else None)"
| "action_go ToLower Title (Step1ToStep2 i v) s =
     (case (step_go (transformA ToLower) (ctx s) (Worker i (SentOut v)) (step1 s),
            step_go (transformB Title) (ctx s) (LoopRecv (Got v)) (step2 s)) of
        (Some st, Some st') \<Rightarrow> Some (s\<lparr>step1 := st, step2 := st'\<rparr>)
      | _ \<Rightarrow> None)"
| "action_go ToLower Title (Step1ToMerge i m) s =
     (case (step_go (transformA ToLower) (ctx s) (Worker i (SentErr m)) (step1 s),
            Merge_go (ctx s) (FwdRecv 0 (Got (Some m))) (allErrors s)) of
        (Some st, Some mg) \<Rightarrow> Some (s\<lparr>step1 := st, allErrors := mg\<rparr>)
      | _ \<Rightarrow> None)"
| "action_go ToLower Title (Step2 ev) s =
     (if stage_alone (0 < out_closes (step1 s)) ev
      then map_option (\<lambda>st. s\<lparr>step2 := st\<rparr>) (step_go (transformB Title) (ctx s) ev (step2 s))
      else None)"
| "action_go ToLower Title (Step2ToSink i v) s =
     (case (step_go (transformB Title) (ctx s) (Worker i (SentOut v)) (step2 s),
            sink_go (SinkVal (Got v)) (ctx s, the_sink s)) of
        (Some st, Some (c, k)) \<Rightarrow> Some (s\<lparr>step2 := st, ctx := c, the_sink := k\<rparr>)
      | _ \<Rightarrow> None)"
| "action_go ToLower Title (Step2ToMerge i m) s =
     (case (step_go (transformB Title) (ctx s) (Worker i (SentErr m)) (step2 s),
            Merge_go (ctx s) (FwdRecv 1 (Got (Some m))) (allErrors s)) of
        (Some st, Some mg) \<Rightarrow> Some (s\<lparr>step2 := st, allErrors := mg\<rparr>)
      | _ \<Rightarrow> None)"
| "action_go ToLower Title (Merger ev) s =
     (if merge_alone (errors_closed s) ev
      then map_option (\<lambda>mg. s\<lparr>allErrors := mg\<rparr>) (Merge_go (ctx s) ev (allErrors s))
      else None)"
| "action_go ToLower Title (MergeToSink i e) s =
     (case (Merge_go (ctx s) (FwdSent i e) (allErrors s),
            sink_go (SinkErr (Got e)) (ctx s, the_sink s)) of
        (Some mg, Some (c, k)) \<Rightarrow> Some (s\<lparr>allErrors := mg, ctx := c, the_sink := k\<rparr>)
      | _ \<Rightarrow> None)"
| "action_go ToLower Title (Sink ev) s =
     (if sink_alone (0 < merge_closes (allErrors s)) (0 < out_closes (step2 s)) ev
      then map_option (\<lambda>(c, k). s\<lparr>ctx := c, the_sink := k\<rparr>) (sink_go ev (ctx s, the_sink s))
      else None)"
| "action_go ToLower Title MainReturn s =
     (if sink_returned (the_sink s) then Some (s\<lparr>ctx := True, main_returned := True\<rparr>) else None)"

definition main_go :: "(string \<Rightarrow> string) \<Rightarrow> (string \<Rightarrow> string) \<Rightarrow> action \<Rightarrow> pipeline \<Rightarrow>
    pipeline option" where
  "main_go ToLower Title a s =
     (if main_returned s \<or> stage_panic (step1 s) \<or> stage_panic (step2 s)
         \<or> merge_panic (allErrors s)
      then None
      else action_go ToLower Title a s)"

section \<open>Invariants and measures\<close>

definition producer_todo :: "producer_state \<Rightarrow> nat" where
  "producer_todo p = (if prod_exited p then 0 else length (prod_items p) + 1)"

definition producer_ok :: "string list \<Rightarrow> bool \<times> producer_state \<Rightarrow> bool" where
  "producer_ok strings cp =
     (case cp of (c, p) \<Rightarrow>
        prod_sent p @ prod_items p = strings
        \<and> prod_closes p = (if prod_exited p then 1 else 0)
        \<and> (c \<or> \<not> prod_exited p \<or> prod_items p = []))"

definition permits_held :: "('i, 'o) stage \<Rightarrow> nat" where
  "permits_held s = length (filter holds_permit (workers s))"

definition stage_ok :: "('i, 'o) stage \<Rightarrow> bool" where
  "stage_ok s =
     (int (permits_held s) \<le> sem_cur (sem1 s) \<and> sem_cur (sem1 s) \<le> sem_size (sem1 s)
      \<and> sem_size (sem1 s) = limit s \<and> 0 \<le> limit s
      \<and> out_closes s = (if loop s = LExit then 1 else 0)
      \<and> err_closes s = (if loop s = LExit then 1 else 0))"

definition fan_in_left :: "'a fan_in \<Rightarrow> nat" where
  "fan_in_left h =
     2 * length (concat (sources h)) + length (filter Not (source_closed h))
     + length (concat (map held (forwarders (merger h))))
     + length (filter (\<lambda>f. f \<noteq> FDone) (forwarders (merger h)))
     + (if closer_done (merger h) then 0 else 1)"

definition fan_in_ok :: "'a list list \<Rightarrow> 'a fan_in \<Rightarrow> bool" where
  "fan_in_ok xss h =
     (length (sources h) = length xss \<and> length (source_closed h) = length xss
      \<and> length (forwarders (merger h)) = length xss
      \<and> wg (merger h) = int (length (filter (\<lambda>f. f \<noteq> FDone) (forwarders (merger h))))
      \<and> (\<forall>i < length xss. source_closed h ! i \<longrightarrow> sources h ! i = [])
      \<and> (\<forall>i < length xss. forwarders (merger h) ! i = FDone \<longrightarrow> source_closed h ! i)
      \<and> mset (merge_sent (merger h)) + mset (concat (map held (forwarders (merger h))))
          + mset (concat (sources h)) = mset (concat xss)
      \<and> (closer_done (merger h) \<longrightarrow> wg (merger h) = 0)
      \<and> merge_closes (merger h) = (if closer_done (merger h) then 1 else 0)
      \<and> \<not> merge_panic (merger h))"

text \<open>
  For comparison only, stage construction as the specification words it: the caller
  supplies the parallelism \<open>K\<close>, and \<open>K \<le> 0\<close> is rejected as a configuration error.
  The source has no such parameter and no such error; \<open>spec_Stage\<close> follows the
  specification's sentence, not \<^verbatim>\<open>main.go\<close>.
\<close>

datatype config_error = InvalidParallelism

definition spec_Stage :: "int \<Rightarrow> config_error + ('i, 'o) stage" where
  "spec_Stage K =
     (if K \<le> 0 then Inl InvalidParallelism
      else Inr (step\<lparr>limit := K, sem1 := NewWeighted K\<rparr>))"

text \<open>States and schedules of the assembled program that the properties below refer to.\<close>

definition before_error :: pipeline where
  "before_error = main
     \<lparr>readStream := (readStream main)\<lparr>prod_items := [''BAR'', ''BAX''], prod_sent := [''FOO'']\<rparr>,
      step1 := step\<lparr>sem1 := \<lparr>sem_size = 2, sem_cur = 1\<rparr>, workers := [WDeferred]\<rparr>,
      step2 := step\<lparr>sem1 := \<lparr>sem_size = 2, sem_cur = 1\<rparr>, workers := [WDeferred]\<rparr>,
      allErrors := (Merge 2)\<lparr>forwarders := [FRange, FSelect (Some ''oh no'')]\<rparr>\<rparr>"
  \<comment> \<open>the program when the error for \<open>foo\<close> has reached the merger and nothing else has moved\<close>













section \<open>Running a component\<close>

lemma exec_invariant:
  assumes "exec st evs s = Some s'" and "I s"
    and "\<And>e a b. I a \<Longrightarrow> st e a = Some b \<Longrightarrow> I b"
  shows "I s'"
  using assms(1,2)
proof (induction evs arbitrary: s)
  case Nil
  then show ?case by simp
next
  case (Cons e es)
  then obtain t where t: "st e s = Some t" and rest: "exec st es t = Some s'"
    by (auto split: option.splits)
  from assms(3) [OF Cons.prems(2) t] have "I t" .
  with Cons.IH rest show ?case by blast
qed

lemma exec_append:
  "exec st (xs @ ys) s = (case exec st xs s of None \<Rightarrow> None | Some t \<Rightarrow> exec st ys t)"
  by (induction xs arbitrary: s) (auto split: option.splits)

section \<open>Properties of the sink\<close>

text \<open>
  C5. A sink that has not returned takes the closing of the results stream in any state
  (it logs \<open>done\<close> and returns), takes the cancellation signal exactly when the context
  is cancelled (it logs the context's error, \<open>context canceled\<close>, and returns), takes any
  result (it logs it and goes on looping, the context untouched) and takes any receive on
  the errors stream without returning. A sink that has returned takes no event. Hence
  whatever iteration the sink performs, it has returned afterwards exactly if the event was
  the closing of the results stream or the cancellation signal.
\<close>

theorem sink_returns_on_close_or_cancel_only:
  "(\<not> sink_returned s \<longrightarrow>
      sink_go (SinkVal Closed) (c, s)
        = Some (c, s\<lparr>sink_log := sink_log s @ [''done''], sink_returned := True\<rparr>)
      \<and> sink_go SinkCtxDone (True, s)
        = Some (True, s\<lparr>sink_log := sink_log s @ [''context canceled''], sink_returned := True\<rparr>)
      \<and> sink_go SinkCtxDone (False, s) = None
      \<and> (\<forall>val. sink_go (SinkVal (Got val)) (c, s)
            = Some (c, s\<lparr>sink_log := sink_log s @ [''sink: '' @ val]\<rparr>))
      \<and> (\<forall>r. \<exists>c' s'. sink_go (SinkErr r) (c, s) = Some (c', s') \<and> \<not> sink_returned s'))
   \<and> (sink_returned s \<longrightarrow> (\<forall>ev. sink_go ev (c, s) = None))
   \<and> (\<forall>ev c' s'. sink_go ev (c, s) = Some (c', s') \<longrightarrow>
        (sink_returned s' \<longleftrightarrow> ev = SinkVal Closed \<or> ev = SinkCtxDone)
        \<and> (ev = SinkVal Closed \<longrightarrow>
             c' = c \<and> s' = s\<lparr>sink_log := sink_log s @ [''done''], sink_returned := True\<rparr>)
        \<and> (ev = SinkCtxDone \<longrightarrow>
             c \<and> c' = c \<and>
             s' = s\<lparr>sink_log := sink_log s @ [''context canceled''], sink_returned := True\<rparr>)
        \<and> (\<forall>val. ev = SinkVal (Got val) \<longrightarrow>
             c' = c \<and> s' = s\<lparr>sink_log := sink_log s @ [''sink: '' @ val]\<rparr>
             \<and> \<not> sink_returned s' \<and> sink_cancels s' = sink_cancels s))"
proof (intro conjI impI allI)
  assume "\<not> sink_returned s"
  then show "sink_go (SinkVal Closed) (c, s)
      = Some (c, s\<lparr>sink_log := sink_log s @ [''done''], sink_returned := True\<rparr>)"
    and "sink_go SinkCtxDone (True, s)
      = Some (True, s\<lparr>sink_log := sink_log s @ [''context canceled''], sink_returned := True\<rparr>)"
    and "sink_go SinkCtxDone (False, s) = None"
    and "\<And>val. sink_go (SinkVal (Got val)) (c, s)
      = Some (c, s\<lparr>sink_log := sink_log s @ [''sink: '' @ val]\<rparr>)"
    and "\<And>r. \<exists>c' s'. sink_go (SinkErr r) (c, s) = Some (c', s') \<and> \<not> sink_returned s'"
    by (auto simp: ctx_Err_def split: option.splits)
next
  fix ev
  assume "sink_returned s"
  then show "sink_go ev (c, s) = None"
    by (cases ev) simp_all
next
  fix ev c' s'
  assume go: "sink_go ev (c, s) = Some (c', s')"
  then have running: "\<not> sink_returned s"
    by (cases ev) (auto split: if_splits)
  have all: "(sink_returned s' \<longleftrightarrow> ev = SinkVal Closed \<or> ev = SinkCtxDone)
      \<and> (ev = SinkVal Closed \<longrightarrow>
           c' = c \<and> s' = s\<lparr>sink_log := sink_log s @ [''done''], sink_returned := True\<rparr>)
      \<and> (ev = SinkCtxDone \<longrightarrow>
           c \<and> c' = c \<and>
           s' = s\<lparr>sink_log := sink_log s @ [''context canceled''], sink_returned := True\<rparr>)
      \<and> (\<forall>val. ev = SinkVal (Got val) \<longrightarrow>
           c' = c \<and> s' = s\<lparr>sink_log := sink_log s @ [''sink: '' @ val]\<rparr>
           \<and> \<not> sink_returned s' \<and> sink_cancels s' = sink_cancels s)"
  proof (cases ev)
    case SinkCtxDone
    with go running show ?thesis
      by (auto simp: ctx_Err_def split: if_splits)
  next
    case (SinkErr r)
    with go running show ?thesis
      by (auto split: option.splits)
  next
    case (SinkVal r)
    with go running show ?thesis
      by (cases r) auto
  qed
  from all show "sink_returned s' \<longleftrightarrow> ev = SinkVal Closed \<or> ev = SinkCtxDone"
    by (rule conjunct1)
  from all running show "ev = SinkVal Closed \<Longrightarrow> c' = c"
    and "ev = SinkVal Closed \<Longrightarrow>
      s' = s\<lparr>sink_log := sink_log s @ [''done''], sink_returned := True\<rparr>"
    and "ev = SinkCtxDone \<Longrightarrow> c" and "ev = SinkCtxDone \<Longrightarrow> c' = c"
    and "ev = SinkCtxDone \<Longrightarrow>
      s' = s\<lparr>sink_log := sink_log s @ [''context canceled''], sink_returned := True\<rparr>"
    and "\<And>val. ev = SinkVal (Got val) \<Longrightarrow> c' = c"
    and "\<And>val. ev = SinkVal (Got val) \<Longrightarrow> s' = s\<lparr>sink_log := sink_log s @ [''sink: '' @ val]\<rparr>"
    and "\<And>val. ev = SinkVal (Got val) \<Longrightarrow> \<not> sink_returned s'"
    and "\<And>val. ev = SinkVal (Got val) \<Longrightarrow> sink_cancels s' = sink_cancels s"
    by simp_all
qed

theorem sink_returns_on_close_or_cancel_only_witness:
  "\<not> sink_returned sink
   \<and> sink_go (SinkVal Closed) (False, sink)
     = Some (False, sink\<lparr>sink_log := [''done''], sink_returned := True\<rparr>)
   \<and> sink_go SinkCtxDone (True, sink)
     = Some (True, sink\<lparr>sink_log := [''context canceled''], sink_returned := True\<rparr>)
   \<and> sink_go SinkCtxDone (False, sink) = None
   \<and> sink_go (SinkVal (Got ''Bar'')) (False, sink)
     = Some (False, sink\<lparr>sink_log := [''sink: Bar'']\<rparr>)
   \<and> sink_go (SinkVal (Got ''Bax'')) (False, sink\<lparr>sink_log := [''done''], sink_returned := True\<rparr>)
     = None"
proof -
  have fresh: "\<not> sink_returned sink"
    by (simp add: sink_def)
  have gone: "sink_returned (sink\<lparr>sink_log := [''done''], sink_returned := True\<rparr>)"
    by simp
  note running = sink_returns_on_close_or_cancel_only [of sink False, THEN conjunct1,
      rule_format, OF fresh]
  from running have a: "sink_go (SinkVal Closed) (False, sink)
      = Some (False, sink\<lparr>sink_log := sink_log sink @ [''done''], sink_returned := True\<rparr>)"
    by (rule conjunct1)
  from running have b: "sink_go SinkCtxDone (True, sink)
      = Some (True, sink\<lparr>sink_log := sink_log sink @ [''context canceled''],
                        sink_returned := True\<rparr>)"
    by (rule conjunct2 [THEN conjunct1])
  from running have n: "sink_go SinkCtxDone (False, sink) = None"
    by (rule conjunct2 [THEN conjunct2, THEN conjunct1])
  from running have "\<forall>val. sink_go (SinkVal (Got val)) (False, sink)
      = Some (False, sink\<lparr>sink_log := sink_log sink @ [''sink: '' @ val]\<rparr>)"
    by (rule conjunct2 [THEN conjunct2, THEN conjunct2, THEN conjunct1])
  then have d: "sink_go (SinkVal (Got ''Bar'')) (False, sink)
      = Some (False, sink\<lparr>sink_log := sink_log sink @ [''sink: '' @ ''Bar'']\<rparr>)"
    by (rule spec)
  from sink_returns_on_close_or_cancel_only
    [of "sink\<lparr>sink_log := [''done''], sink_returned := True\<rparr>" False,
      THEN conjunct2, THEN conjunct1, rule_format, OF gone]
  have e: "sink_go (SinkVal (Got ''Bax''))
      (False, sink\<lparr>sink_log := [''done''], sink_returned := True\<rparr>) = None" .
  have log: "sink_log sink = []"
    by (simp add: sink_def)
  from fresh a b n d e show ?thesis
    unfolding log by simp
qed

text \<open>
  C10. A receive on the errors stream that yields \<^verbatim>\<open>nil\<close> (a \<^verbatim>\<open>nil\<close> that was sent, or the
  zero value that every receive on the closed stream yields) leaves the sink and the
  context exactly as they were: nothing is logged, cancel is not called, the sink has not
  returned, and the same receive can be taken again. The only events that end the sink stay
  the closing of the results stream and the cancellation signal.
\<close>

theorem sink_ignores_nil_error:
  assumes "\<not> sink_returned s" and "recv_error r = None"
  shows "sink_go (SinkErr r) (c, s) = Some (c, s)
       \<and> exec sink_go (replicate n (SinkErr r)) (c, s) = Some (c, s)
       \<and> recv_error Closed = None"
proof -
  from assms have one: "sink_go (SinkErr r) (c, s) = Some (c, s)"
    by simp
  have "exec sink_go (replicate n (SinkErr r)) (c, s) = Some (c, s)"
    by (induction n) (simp_all add: one del: sink_go.simps)
  with one show ?thesis
    by (simp add: recv_error_def)
qed

theorem sink_ignores_nil_error_witness:
  "\<not> sink_returned sink \<and> recv_error Closed = None
   \<and> sink_go (SinkErr Closed) (False, sink) = Some (False, sink)
   \<and> exec sink_go (replicate 3 (SinkErr Closed)) (False, sink) = Some (False, sink)"
proof -
  have a: "\<not> sink_returned sink" by (simp add: sink_def)
  have b: "recv_error Closed = None" by (simp add: recv_error_def)
  from sink_ignores_nil_error [OF a b, of False 3] a b show ?thesis by simp
qed

section \<open>Properties of the producer\<close>

lemma producer_go_cases:
  assumes "producer_go c ev p = Some p'"
  obtains (cancel) "ev = ProdCtxDone" "c" "\<not> prod_exited p" "prod_items p \<noteq> []" "p' = producer_exit p"
  | (send) v rest where "ev = ProdSend v" "\<not> prod_exited p" "prod_items p = v # rest"
      "p' = p\<lparr>prod_items := rest, prod_sent := prod_sent p @ [v]\<rparr>"
  | (finish) "ev = ProdRangeEnd" "\<not> prod_exited p" "prod_items p = []" "p' = producer_exit p"
  using assms by (cases ev) (auto split: if_splits list.splits)

lemma producer_ok_step:
  assumes "producer_ok strings cp" and "with_ctx producer_go e cp = Some cp'"
  shows "producer_ok strings cp'"
proof (cases cp)
  case (Pair c p)
  show ?thesis
  proof (cases e)
    case Cancel
    with assms Pair show ?thesis by (auto simp: producer_ok_def)
  next
    case (Ev ev)
    with assms Pair obtain p' where go: "producer_go c ev p = Some p'" and cp': "cp' = (c, p')"
      by (auto split: option.splits)
    from go assms(1) Pair show ?thesis unfolding cp'
      by (cases rule: producer_go_cases) (auto simp: producer_ok_def producer_exit_def)
  qed
qed

lemma no_cancel_keeps_ctx:
  "exec (with_ctx st) evs (c, s) = Some (c', s') \<Longrightarrow> Cancel \<notin> set evs \<Longrightarrow> c' = c"
proof (induction evs arbitrary: c s)
  case Nil
  then show ?case by simp
next
  case (Cons e es)
  then obtain ev where e: "e = Ev ev" by (cases e) auto
  with Cons.prems obtain t where "st c ev s = Some t" "exec (with_ctx st) es (c, t) = Some (c', s')"
    by (auto split: option.splits)
  with Cons show ?case by auto
qed

lemma producer_events_bounded:
  "exec (with_ctx producer_go) evs (c, p) = Some (c', p') \<Longrightarrow>
   length (filter (\<lambda>e. e \<noteq> Cancel) evs) + producer_todo p' \<le> producer_todo p"
proof (induction evs arbitrary: c p)
  case Nil
  then show ?case by simp
next
  case (Cons e es)
  show ?case
  proof (cases e)
    case Cancel
    with Cons.prems have "exec (with_ctx producer_go) es (True, p) = Some (c', p')" by simp
    from Cons.IH [OF this] Cancel show ?thesis by simp
  next
    case (Ev ev)
    with Cons.prems obtain q where go: "producer_go c ev p = Some q"
      and rest: "exec (with_ctx producer_go) es (c, q) = Some (c', p')"
      by (auto split: option.splits)
    from go have "producer_todo q + 1 \<le> producer_todo p"
      by (cases rule: producer_go_cases) (auto simp: producer_todo_def producer_exit_def)
    with Cons.IH [OF rest] Ev show ?thesis by simp
  qed
qed

lemma producer_sends_all:
  "\<not> prod_exited p \<Longrightarrow> prod_items p = xs \<Longrightarrow>
   exec (with_ctx producer_go) (map (\<lambda>v. Ev (ProdSend v)) xs) (c, p)
     = Some (c, p\<lparr>prod_items := [], prod_sent := prod_sent p @ xs\<rparr>)"
proof (induction xs arbitrary: p)
  case Nil
  then show ?case by simp
next
  case (Cons x xs)
  let ?q = "p\<lparr>prod_items := xs, prod_sent := prod_sent p @ [x]\<rparr>"
  from Cons.prems have "producer_go c (ProdSend x) p = Some ?q" by simp
  moreover have "exec (with_ctx producer_go) (map (\<lambda>v. Ev (ProdSend v)) xs) (c, ?q)
      = Some (c, ?q\<lparr>prod_items := [], prod_sent := prod_sent ?q @ xs\<rparr>)"
    using Cons.prems by (intro Cons.IH) simp_all
  ultimately show ?case by simp
qed

text \<open>
  C4. Take any run of the producer's goroutine for the slice \<open>strings\<close>, with or without
  a call of cancel. What it has sent, followed by the elements it has not reached, is
  \<open>strings\<close>: the items go out in the slice's order, none twice, none skipped.
  \<^verbatim>\<open>close(outChannel)\<close> has run once if the goroutine is gone and not at all before, and
  a goroutine that is gone takes no further event, so the elements left at a cancellation
  are never sent. Without cancel the goroutine leaves only when every item has been sent.
  As long as it has not left, the send of the next item (or the end of the range) is an
  event it can take, it can take at most \<open>length strings + 1\<close> events, and the run in
  which the consumer receives every item ends with all of \<open>strings\<close> sent and the channel
  closed once. \<^verbatim>\<open>producer\<close> itself returns a \<^verbatim>\<open>nil\<close> error.
\<close>

theorem producer_emits_in_order_and_closes_once:
  assumes "exec (with_ctx producer_go) evs (False, fst (producer strings)) = Some (c, p)"
  shows "snd (producer strings) = None
       \<and> prod_sent p @ prod_items p = strings
       \<and> prod_closes p = (if prod_exited p then 1 else 0)
       \<and> (Cancel \<notin> set evs \<longrightarrow> prod_exited p \<longrightarrow> prod_sent p = strings)
       \<and> (prod_exited p \<longrightarrow> (\<forall>ev. producer_go c ev p = None))
       \<and> (\<not> prod_exited p \<longrightarrow>
            producer_go c (case prod_items p of [] \<Rightarrow> ProdRangeEnd | v # rest \<Rightarrow> ProdSend v) p \<noteq> None)
       \<and> (c \<and> \<not> prod_exited p \<and> prod_items p \<noteq> [] \<longrightarrow>
            producer_go c ProdCtxDone p = Some (producer_exit p))
       \<and> length (filter (\<lambda>e. e \<noteq> Cancel) evs) \<le> length strings + 1
       \<and> exec (with_ctx producer_go) (map (\<lambda>v. Ev (ProdSend v)) strings @ [Ev ProdRangeEnd])
            (False, fst (producer strings))
          = Some (False, \<lparr>prod_items = [], prod_sent = strings, prod_closes = 1, prod_exited = True\<rparr>)"
proof -
  let ?p0 = "fst (producer strings)"
  have init: "producer_ok strings (False, ?p0)"
    by (simp add: producer_ok_def producer_def)
  have ok: "producer_ok strings (c, p)"
    by (rule exec_invariant [where I = "producer_ok strings", OF assms init]) (rule producer_ok_step)
  have nil: "snd (producer strings) = None"
    by (simp add: producer_def)
  from ok have order: "prod_sent p @ prod_items p = strings"
    and once: "prod_closes p = (if prod_exited p then 1 else 0)"
    by (simp_all add: producer_ok_def)
  have all: "prod_sent p = strings" if "Cancel \<notin> set evs" and "prod_exited p"
  proof -
    from no_cancel_keeps_ctx [OF assms that(1)] have "\<not> c" by simp
    with ok that(2) have "prod_items p = []" by (simp add: producer_ok_def)
    with order show ?thesis by simp
  qed
  have dead: "producer_go c ev p = None" if "prod_exited p" for ev
    using that by (cases ev) simp_all
  have live: "producer_go c (case prod_items p of [] \<Rightarrow> ProdRangeEnd | v # rest \<Rightarrow> ProdSend v) p \<noteq> None"
    if "\<not> prod_exited p"
    using that by (cases "prod_items p") simp_all
  have abort: "producer_go c ProdCtxDone p = Some (producer_exit p)"
    if "c \<and> \<not> prod_exited p \<and> prod_items p \<noteq> []"
    using that by simp
  from producer_events_bounded [OF assms]
  have bound: "length (filter (\<lambda>e. e \<noteq> Cancel) evs) \<le> length strings + 1"
    by (simp add: producer_todo_def producer_def)
  have "exec (with_ctx producer_go) (map (\<lambda>v. Ev (ProdSend v)) strings) (False, ?p0)
      = Some (False, ?p0\<lparr>prod_items := [], prod_sent := prod_sent ?p0 @ strings\<rparr>)"
    by (rule producer_sends_all) (simp_all add: producer_def)
  then have full: "exec (with_ctx producer_go) (map (\<lambda>v. Ev (ProdSend v)) strings @ [Ev ProdRangeEnd])
        (False, ?p0)
      = Some (False, \<lparr>prod_items = [], prod_sent = strings, prod_closes = 1, prod_exited = True\<rparr>)"
    by (simp add: exec_append producer_def producer_exit_def)
  from nil order once all dead live abort bound full show ?thesis
    by blast
qed

theorem producer_emits_in_order_and_closes_once_witness:
  "exec (with_ctx producer_go) [Ev (ProdSend ''FOO''), Cancel, Ev ProdCtxDone]
     (False, fst (producer [''FOO'', ''BAR'', ''BAX'']))
   = Some (True, \<lparr>prod_items = [''BAR'', ''BAX''], prod_sent = [''FOO''], prod_closes = 1,
                   prod_exited = True\<rparr>)
   \<and> exec (with_ctx producer_go)
       [Ev (ProdSend ''FOO''), Ev (ProdSend ''BAR''), Ev (ProdSend ''BAX''), Ev ProdRangeEnd]
       (False, fst (producer [''FOO'', ''BAR'', ''BAX'']))
     = Some (False, \<lparr>prod_items = [], prod_sent = [''FOO'', ''BAR'', ''BAX''], prod_closes = 1,
                     prod_exited = True\<rparr>)
   \<and> producer_go True (ProdSend ''BAR'')
       \<lparr>prod_items = [''BAR'', ''BAX''], prod_sent = [''FOO''], prod_closes = 1, prod_exited = True\<rparr>
     = None"
proof -
  let ?p = "\<lparr>prod_items = [''BAR'', ''BAX''], prod_sent = [''FOO''], prod_closes = 1,
             prod_exited = True\<rparr>"
  have run: "exec (with_ctx producer_go) [Ev (ProdSend ''FOO''), Cancel, Ev ProdCtxDone]
      (False, fst (producer [''FOO'', ''BAR'', ''BAX''])) = Some (True, ?p)"
    by (simp add: producer_def producer_exit_def)
  from producer_emits_in_order_and_closes_once [OF run]
  have "producer_go True (ProdSend ''BAR'') ?p = None"
    and "exec (with_ctx producer_go)
       (map (\<lambda>v. Ev (ProdSend v)) [''FOO'', ''BAR'', ''BAX''] @ [Ev ProdRangeEnd])
       (False, fst (producer [''FOO'', ''BAR'', ''BAX'']))
     = Some (False, \<lparr>prod_items = [], prod_sent = [''FOO'', ''BAR'', ''BAX''], prod_closes = 1,
                     prod_exited = True\<rparr>)"
    by simp_all
  with run show ?thesis by simp
qed

section \<open>Properties of the stage\<close>

lemma step_go_cases [consumes 1, case_names ctx_done recv recv_closed acquired drained acquire_err
    drain_err wake return_err return_ok sent_err sent_out panic_err panic_out released release_panic]:
  assumes "step_go fn c ev s = Some s'"
  obtains
    "ev = LoopCtxDone" "c" "loop s = LSelect" "s' = s"
  | v where "ev = LoopRecv (Got v)" "loop s = LSelect" "s' = s\<lparr>loop := LAcquire v\<rparr>"
  | "ev = LoopRecv Closed" "loop s = LSelect" "s' = s\<lparr>loop := LDrain\<rparr>"
  | v where "ev = AcquireNil" "loop s = LAcquire v" "sem_cur (sem1 s) + 1 \<le> sem_size (sem1 s)"
      "s' = s\<lparr>sem1 := (sem1 s)\<lparr>sem_cur := sem_cur (sem1 s) + 1\<rparr>,
              workers := workers s @ [WSleep v], loop := LSelect\<rparr>"
  | "ev = AcquireNil" "loop s = LDrain" "limit s \<le> sem_size (sem1 s) - sem_cur (sem1 s)"
      "s' = stage_return (s\<lparr>sem1 := (sem1 s)\<lparr>sem_cur := sem_cur (sem1 s) + limit s\<rparr>\<rparr>)"
  | v where "ev = AcquireErr" "c" "loop s = LAcquire v"
      "s' = s\<lparr>stage_log := stage_log s @ [acquire_failed c], loop := LSelect\<rparr>"
  | "ev = AcquireErr" "c" "loop s = LDrain"
      "s' = stage_return (s\<lparr>stage_log := stage_log s @ [acquire_failed c]\<rparr>)"
  | i v where "ev = Worker i Wake" "i < length (workers s)" "workers s ! i = WSleep v"
      "s' = s\<lparr>workers := (workers s)[i := WCall v]\<rparr>"
  | i v r m where "ev = Worker i Return" "i < length (workers s)" "workers s ! i = WCall v"
      "fn v = (r, Some m)" "s' = s\<lparr>workers := (workers s)[i := WSendErr m]\<rparr>"
  | i v r where "ev = Worker i Return" "i < length (workers s)" "workers s ! i = WCall v"
      "fn v = (r, None)" "s' = s\<lparr>workers := (workers s)[i := WSendOut r]\<rparr>"
  | i m where "ev = Worker i (SentErr m)" "i < length (workers s)" "workers s ! i = WSendErr m"
      "err_closes s = 0" "s' = s\<lparr>workers := (workers s)[i := WDeferred]\<rparr>"
  | i r where "ev = Worker i (SentOut r)" "i < length (workers s)" "workers s ! i = WSendOut r"
      "out_closes s = 0" "s' = s\<lparr>workers := (workers s)[i := WDeferred]\<rparr>"
  | i m where "ev = Worker i SendPanics" "i < length (workers s)" "workers s ! i = WSendErr m"
      "0 < err_closes s" "s' = s\<lparr>stage_panic := True\<rparr>"
  | i r where "ev = Worker i SendPanics" "i < length (workers s)" "workers s ! i = WSendOut r"
      "0 < out_closes s" "s' = s\<lparr>stage_panic := True\<rparr>"
  | i where "ev = Worker i Released" "i < length (workers s)" "workers s ! i = WDeferred"
      "1 \<le> sem_cur (sem1 s)"
      "s' = s\<lparr>sem1 := (sem1 s)\<lparr>sem_cur := sem_cur (sem1 s) - 1\<rparr>,
              workers := (workers s)[i := WDone]\<rparr>"
  | i where "ev = Worker i Released" "i < length (workers s)" "workers s ! i = WDeferred"
      "sem_cur (sem1 s) < 1" "s' = s\<lparr>stage_panic := True\<rparr>"
proof (cases ev)
  case LoopCtxDone
  with assms that(1) show ?thesis
    by (auto simp: step_go_def split: if_splits)
next
  case (LoopRecv r)
  with assms that(2,3) show ?thesis
    by (cases r) (auto simp: step_go_def split: if_splits)
next
  case AcquireNil
  with assms that(4,5) show ?thesis
    by (cases "loop s") (auto simp: step_go_def Acquire_def split: if_splits)
next
  case AcquireErr
  with assms that(6,7) show ?thesis
    by (cases "loop s") (auto simp: step_go_def split: if_splits)
next
  case (Worker i e)
  with assms have i: "i < length (workers s)" and np: "\<not> stage_panic s"
    and go: "worker_go fn s i (workers s ! i) e = Some s'"
    by (auto simp: step_go_def split: if_splits)
  show ?thesis
  proof (cases "workers s ! i")
    case (WSleep v)
    with go Worker i that(8) show ?thesis by (cases e) auto
  next
    case (WCall v)
    with go Worker i that(9,10) show ?thesis
      by (cases e; cases "fn v") (auto split: option.splits)
  next
    case (WSendOut r)
    with go Worker i that(12,14) show ?thesis by (cases e) (auto split: if_splits)
  next
    case (WSendErr m)
    with go Worker i that(11,13) show ?thesis by (cases e) (auto split: if_splits)
  next
    case WDeferred
    with go Worker i that(15,16) show ?thesis
      by (cases e) (auto simp: Release_def split: if_splits)
  next
    case WDone
    with go show ?thesis by (cases e) auto
  qed
qed

lemma count_update:
  "i < length xs \<Longrightarrow>
   length (filter P (xs[i := y])) + (if P (xs ! i) then 1 else 0)
     = length (filter P xs) + (if P y then 1 else 0)"
proof (induction xs arbitrary: i)
  case Nil
  then show ?case by simp
next
  case (Cons x xs)
  then show ?case by (cases i) auto
qed

lemma permits_held_update:
  "i < length (workers s) \<Longrightarrow>
   int (permits_held (s\<lparr>workers := (workers s)[i := w]\<rparr>))
     = int (permits_held s) - (if holds_permit (workers s ! i) then 1 else 0)
       + (if holds_permit w then 1 else 0)"
  using count_update [of i "workers s" holds_permit w]
  by (auto simp: permits_held_def split: if_splits)

lemma stage_ok_worker_update:
  assumes "stage_ok s" and "i < length (workers s)"
    and "holds_permit (workers s ! i)" and "holds_permit w"
  shows "stage_ok (s\<lparr>workers := (workers s)[i := w]\<rparr>)"
  using assms permits_held_update [of i s w]
  by (simp add: stage_ok_def)

lemma stage_ok_step:
  assumes "stage_ok s" and "step_go fn c ev s = Some s'"
  shows "stage_ok s'"
  using assms(2)
proof (cases rule: step_go_cases)
  case (acquired v)
  with assms(1) show ?thesis
    by (simp add: stage_ok_def permits_held_def holds_permit_def)
next
  case drained
  with assms(1) show ?thesis
    by (auto simp: stage_ok_def stage_return_def permits_held_def)
next
  case (wake i v)
  with assms(1) show ?thesis
    by (simp add: stage_ok_worker_update holds_permit_def)
next
  case (return_err i v r m)
  with assms(1) show ?thesis
    by (simp add: stage_ok_worker_update holds_permit_def)
next
  case (return_ok i v r)
  with assms(1) show ?thesis
    by (simp add: stage_ok_worker_update holds_permit_def)
next
  case (sent_err i m)
  with assms(1) show ?thesis
    by (simp add: stage_ok_worker_update holds_permit_def)
next
  case (sent_out i r)
  with assms(1) show ?thesis
    by (simp add: stage_ok_worker_update holds_permit_def)
next
  case (released i)
  with assms(1) permits_held_update [of i s WDone] show ?thesis
    by (simp add: stage_ok_def holds_permit_def permits_held_def)
qed (use assms(1) in \<open>auto simp: stage_ok_def stage_return_def permits_held_def\<close>)

lemma active_le_held: "active_calls s \<le> permits_held s"
proof -
  have "length (filter P xs) \<le> length (filter Q xs)" if "\<And>x. P x \<Longrightarrow> Q x"
    for P Q :: "'c \<Rightarrow> bool" and xs
    using that by (induction xs) auto
  then show ?thesis
    unfolding active_calls_def permits_held_def
    by (rule meta_mp) (auto simp: holds_permit_def split: worker.splits)
qed

lemma stage_ok_run:
  assumes "exec (with_ctx (step_go fn)) evs (c0, s0) = Some (c, s)" and "stage_ok s0"
  shows "stage_ok s"
proof -
  have "stage_ok (snd (c, s))"
  proof (rule exec_invariant [where I = "\<lambda>cs. stage_ok (snd cs)", OF assms(1)])
    show "stage_ok (snd (c0, s0))" using assms(2) by simp
  next
    fix e and a b :: "bool \<times> ('a, 'b) stage"
    assume "stage_ok (snd a)" and "with_ctx (step_go fn) e a = Some b"
    then show "stage_ok (snd b)"
      by (cases a; cases e) (auto split: option.splits dest: stage_ok_step)
  qed
  then show ?thesis by simp
qed


lemma step_go_limit:
  assumes "step_go fn c ev s = Some s'"
  shows "limit s' = limit s"
  using assms by (cases rule: step_go_cases) (auto simp: stage_return_def)

lemma stage_limit_run:
  assumes "exec (with_ctx (step_go fn)) evs (c0, s0) = Some (c, s)"
  shows "limit s = limit s0"
proof -
  have "limit (snd (c, s)) = limit s0"
  proof (rule exec_invariant [where I = "\<lambda>cs. limit (snd cs) = limit s0", OF assms])
    show "limit (snd (c0, s0)) = limit s0" by simp
  next
    fix e and a b :: "bool \<times> ('a, 'b) stage"
    assume "limit (snd a) = limit s0" and "with_ctx (step_go fn) e a = Some b"
    then show "limit (snd b) = limit s0"
      by (cases a; cases e) (auto split: option.splits dest: step_go_limit)
  qed
  then show ?thesis by simp
qed

lemma stage_ok_init: "0 \<le> K \<Longrightarrow> stage_ok (step\<lparr>limit := K, sem1 := NewWeighted K\<rparr>)"
  by (simp add: stage_ok_def step_def NewWeighted_def permits_held_def)

lemma step_is_limit_2: "step\<lparr>limit := 2, sem1 := NewWeighted 2\<rparr> = step"
  by (simp add: step_def)

text \<open>
  C1. Let a stage be started with a permit pool of capacity \<open>K \<ge> 1\<close> (\<^verbatim>\<open>step\<close> itself is
  the case \<open>K = 2\<close>, its \<^verbatim>\<open>limit\<close>). In every state of every run, cancelled or not, the
  number of invocations of \<^verbatim>\<open>fn\<close> that have begun and not returned is at most \<open>K\<close>:
  each of them belongs to a worker that holds a permit, the workers holding permits are at
  most as many as the permits taken from the semaphore, and those never exceed \<open>K\<close>.
  When \<open>K\<close> workers hold permits, the loop's \<^verbatim>\<open>Acquire\<close> cannot return \<^verbatim>\<open>nil\<close>, so no
  further worker is started.
\<close>

theorem stage_bounds_concurrent_calls:
  fixes fn :: "'i \<Rightarrow> 'o \<times> go_error"
  assumes "1 \<le> K"
    and "exec (with_ctx (step_go fn)) evs (False, step\<lparr>limit := K, sem1 := NewWeighted K\<rparr>)
           = Some (c, s)"
  shows "int (active_calls s) \<le> K
       \<and> int (permits_held s) \<le> sem_cur (sem1 s) \<and> sem_cur (sem1 s) \<le> K
       \<and> sem_size (sem1 s) = K
       \<and> (int (permits_held s) = K \<longrightarrow> step_go fn c AcquireNil s = None)
       \<and> (K = 2 \<longrightarrow> step\<lparr>limit := K, sem1 := NewWeighted K\<rparr> = (step :: ('i, 'o) stage))"
proof -
  from assms(1) have "stage_ok (step\<lparr>limit := K, sem1 := NewWeighted K\<rparr> :: ('i, 'o) stage)"
    by (simp add: stage_ok_init)
  from stage_ok_run [OF assms(2) this] have ok: "stage_ok s" .
  from stage_limit_run [OF assms(2)] have lim: "limit s = K" by simp
  from ok lim have held: "int (permits_held s) \<le> sem_cur (sem1 s)"
    and cur: "sem_cur (sem1 s) \<le> K" and size: "sem_size (sem1 s) = K"
    by (simp_all add: stage_ok_def)
  from active_le_held [of s] held cur have active: "int (active_calls s) \<le> K"
    by linarith
  have full: "step_go fn c AcquireNil s = None" if "int (permits_held s) = K"
  proof -
    from that held cur have "sem_cur (sem1 s) = K" by linarith
    with size lim assms(1) show ?thesis
      by (cases "loop s") (simp_all add: step_go_def Acquire_def)
  qed
  from active held cur size full step_is_limit_2 show ?thesis
    by blast
qed

theorem stage_bounds_concurrent_calls_witness:
  "exec (with_ctx (step_go (transformA ascii_ToLower)))
     [Ev (LoopRecv (Got ''FOO'')), Ev AcquireNil, Ev (LoopRecv (Got ''BAR'')), Ev AcquireNil,
      Ev (Worker 0 Wake), Ev (Worker 1 Wake), Ev (LoopRecv (Got ''BAX''))]
     (False, step)
   = Some (False, step\<lparr>sem1 := \<lparr>sem_size = 2, sem_cur = 2\<rparr>, loop := LAcquire ''BAX'',
                        workers := [WCall ''FOO'', WCall ''BAR'']\<rparr>)
   \<and> active_calls (step\<lparr>sem1 := \<lparr>sem_size = 2, sem_cur = 2\<rparr>, loop := LAcquire ''BAX'',
                        workers := [WCall ''FOO'', WCall ''BAR'']\<rparr> :: (string, string) stage) = 2
   \<and> step_go (transformA ascii_ToLower) False AcquireNil
        (step\<lparr>sem1 := \<lparr>sem_size = 2, sem_cur = 2\<rparr>, loop := LAcquire ''BAX'',
              workers := [WCall ''FOO'', WCall ''BAR'']\<rparr>) = None"
proof -
  let ?evs = "[Ev (LoopRecv (Got ''FOO'')), Ev AcquireNil, Ev (LoopRecv (Got ''BAR'')),
      Ev AcquireNil, Ev (Worker 0 Wake), Ev (Worker 1 Wake), Ev (LoopRecv (Got ''BAX''))]"
  let ?s = "step\<lparr>sem1 := \<lparr>sem_size = 2, sem_cur = 2\<rparr>, loop := LAcquire ''BAX'',
                  workers := [WCall ''FOO'', WCall ''BAR'']\<rparr> :: (string, string) stage"
  have k: "(1::int) \<le> 2" by simp
  have run: "exec (with_ctx (step_go (transformA ascii_ToLower))) ?evs (False, step) = Some (False, ?s)"
    by (simp add: step_def step_go_def NewWeighted_def Acquire_def)
  then have run': "exec (with_ctx (step_go (transformA ascii_ToLower))) ?evs
      (False, step\<lparr>limit := 2, sem1 := NewWeighted 2\<rparr>) = Some (False, ?s)"
    by (simp only: step_is_limit_2)
  have active: "active_calls ?s = 2"
    by (simp add: active_calls_def step_def)
  have held: "int (permits_held ?s) = 2"
    by (simp add: permits_held_def holds_permit_def step_def)
  from stage_bounds_concurrent_calls [OF k run']
  have "int (permits_held ?s) = 2 \<longrightarrow> step_go (transformA ascii_ToLower) False AcquireNil ?s = None"
    by blast
  with held have "step_go (transformA ascii_ToLower) False AcquireNil ?s = None"
    by blast
  with run active show ?thesis
    by blast
qed



lemma transformB_lowered:
  "transformB ascii_Title ''foo'' = ([], Some ''oh no'')"
  "transformB ascii_Title ''bar'' = (''Bar'', None)"
  "transformB ascii_Title ''bax'' = (''Bax'', None)"
  by code_simp+

lemma deferred_holds_permit:
  assumes "i < length (workers s)" and "holds_permit (workers s ! i)"
  shows "1 \<le> int (permits_held s)"
proof -
  from assms(1) have "workers s ! i \<in> set (workers s)"
    by (rule nth_mem)
  with assms(2) have "\<exists>w \<in> set (workers s). holds_permit w"
    by blast
  then have "filter holds_permit (workers s) \<noteq> []"
    by (simp add: filter_empty_conv)
  then show ?thesis
    by (cases "filter holds_permit (workers s)") (simp_all add: permits_held_def)
qed




text \<open>
  C8. The property is what the source is written for (the two deferred closes, and
  \<^verbatim>\<open>return\<close> as the reaction to \<^verbatim>\<open>ctx.Done()\<close> in \<^verbatim>\<open>producer\<close>, \<^verbatim>\<open>sink\<close> and \<^verbatim>\<open>Merge\<close>),
  but in \<^verbatim>\<open>step\<close> the reaction to \<^verbatim>\<open>ctx.Done()\<close> and to a failed \<^verbatim>\<open>Acquire\<close> is a
  \<^verbatim>\<open>break\<close> inside the \<^verbatim>\<open>select\<close>, which leaves the \<^verbatim>\<open>select\<close> and not the loop. So in
  every run in which the input channel is not reported closed, cancelled or not, the loop
  never leaves, neither channel is ever closed, and taking the cancellation signal at the
  \<^verbatim>\<open>select\<close> leaves the stage exactly as it was; an acquisition that was pending when the
  context was cancelled fails and puts the loop back at the \<^verbatim>\<open>select\<close>. In every run,
  whatever the input does, each of the two channels has been closed once if the loop has
  left and not at all otherwise, so neither is closed twice.
\<close>

theorem stage_leaves_only_when_input_closed:
  fixes fn :: "'i \<Rightarrow> 'o \<times> go_error"
  assumes "exec (with_ctx (step_go fn)) evs (c0, step) = Some (c, s)"
  shows "out_closes s = (if loop s = LExit then 1 else 0)
       \<and> err_closes s = (if loop s = LExit then 1 else 0)
       \<and> (Ev (LoopRecv Closed) \<notin> set evs \<longrightarrow>
            loop s \<noteq> LExit \<and> out_closes s = 0 \<and> err_closes s = 0
            \<and> (c \<and> loop s = LSelect \<longrightarrow> step_go fn c LoopCtxDone s = Some s)
            \<and> (\<forall>v. c \<and> loop s = LAcquire v \<longrightarrow>
                 step_go fn c AcquireErr s
                   = Some (s\<lparr>stage_log := stage_log s @ [acquire_failed c], loop := LSelect\<rparr>)))"
proof -
  define I :: "bool \<times> ('i, 'o) stage \<Rightarrow> bool"
    where "I = (\<lambda>cs. stage_ok (snd cs) \<and> loop (snd cs) \<noteq> LExit \<and> loop (snd cs) \<noteq> LDrain
                  \<and> \<not> stage_panic (snd cs))"
  have keep: "I (c', s')" if "I (c', t)" and "step_go fn c' ev t = Some s'"
      and "ev \<noteq> LoopRecv Closed" for c' t s' ev
  proof -
    from that(1) have ok: "stage_ok t" by (simp add: I_def)
    from stage_ok_step [OF ok that(2)] have ok': "stage_ok s'" .
    from that(2) that(1,3) ok ok' show ?thesis
    proof (cases rule: step_go_cases)
      case (release_panic i)
      with deferred_holds_permit [of i t] ok show ?thesis
        by (simp add: stage_ok_def holds_permit_def)
    qed (auto simp: I_def stage_ok_def)
  qed
  have run: "I (c, s)" if "exec (with_ctx (step_go fn)) es (c', t) = Some (c, s)"
      and "Ev (LoopRecv Closed) \<notin> set es" and "I (c', t)" for es c' t
    using that
  proof (induction es arbitrary: c' t)
    case Nil
    then show ?case by simp
  next
    case (Cons e es)
    show ?case
    proof (cases e)
      case Cancel
      with Cons.prems have "exec (with_ctx (step_go fn)) es (True, t) = Some (c, s)"
        and "I (True, t)"
        by (simp_all add: I_def)
      with Cons.IH Cons.prems(2) show ?thesis by simp
    next
      case (Ev ev)
      with Cons.prems obtain t' where go: "step_go fn c' ev t = Some t'"
        and rest: "exec (with_ctx (step_go fn)) es (c', t') = Some (c, s)"
        by (auto split: option.splits)
      from Cons.prems(2) Ev have "ev \<noteq> LoopRecv Closed" by auto
      from keep [OF Cons.prems(3) go this] Cons.IH [OF rest] Cons.prems(2) show ?thesis
        by simp
    qed
  qed
  have ok0: "stage_ok (step :: ('i, 'o) stage)"
    using stage_ok_init [of 2] by (simp add: step_is_limit_2)
  from stage_ok_run [OF assms ok0] have ok: "stage_ok s" .
  then have once: "out_closes s = (if loop s = LExit then 1 else 0)"
      "err_closes s = (if loop s = LExit then 1 else 0)"
    by (simp_all add: stage_ok_def)
  have spin: "Ev (LoopRecv Closed) \<notin> set evs \<longrightarrow>
      loop s \<noteq> LExit \<and> out_closes s = 0 \<and> err_closes s = 0
      \<and> (c \<and> loop s = LSelect \<longrightarrow> step_go fn c LoopCtxDone s = Some s)
      \<and> (\<forall>v. c \<and> loop s = LAcquire v \<longrightarrow>
           step_go fn c AcquireErr s
             = Some (s\<lparr>stage_log := stage_log s @ [acquire_failed c], loop := LSelect\<rparr>))"
  proof
    assume open_input: "Ev (LoopRecv Closed) \<notin> set evs"
    have "I (c0, step)"
      using ok0 by (simp add: I_def) (simp add: step_def)
    from run [OF assms open_input this]
    have inv: "stage_ok s" "loop s \<noteq> LExit" "\<not> stage_panic s"
      by (simp_all add: I_def)
    then show "loop s \<noteq> LExit \<and> out_closes s = 0 \<and> err_closes s = 0
      \<and> (c \<and> loop s = LSelect \<longrightarrow> step_go fn c LoopCtxDone s = Some s)
      \<and> (\<forall>v. c \<and> loop s = LAcquire v \<longrightarrow>
           step_go fn c AcquireErr s
             = Some (s\<lparr>stage_log := stage_log s @ [acquire_failed c], loop := LSelect\<rparr>))"
      by (auto simp: stage_ok_def step_go_def)
  qed
  from once spin show ?thesis
    by (intro conjI)
qed

theorem stage_leaves_only_when_input_closed_witness:
  "exec (with_ctx (step_go (transformA ascii_ToLower)))
     [Cancel, Ev LoopCtxDone, Ev LoopCtxDone, Ev (LoopRecv (Got ''FOO'')), Ev AcquireErr,
      Ev LoopCtxDone]
     (False, step)
   = Some (True, step\<lparr>stage_log := [''Failed to acquire semaphore: context canceled'']\<rparr>)
   \<and> step_go (transformA ascii_ToLower) True LoopCtxDone
        (step\<lparr>stage_log := [''Failed to acquire semaphore: context canceled'']\<rparr>)
     = Some (step\<lparr>stage_log := [''Failed to acquire semaphore: context canceled'']\<rparr>)
   \<and> out_closes (step\<lparr>stage_log := [''Failed to acquire semaphore: context canceled'']\<rparr>
        :: (string, string) stage) = 0
   \<and> err_closes (step\<lparr>stage_log := [''Failed to acquire semaphore: context canceled'']\<rparr>
        :: (string, string) stage) = 0"
proof -
  let ?evs = "[Cancel, Ev LoopCtxDone, Ev LoopCtxDone, Ev (LoopRecv (Got ''FOO'')),
     Ev AcquireErr, Ev LoopCtxDone] :: (string, string) stage_event env list"
  let ?s = "step\<lparr>stage_log := [''Failed to acquire semaphore: context canceled'']\<rparr>
    :: (string, string) stage"
  have run: "exec (with_ctx (step_go (transformA ascii_ToLower))) ?evs (False, step) = Some (True, ?s)"
    by (simp add: step_def step_go_def acquire_failed_def ctx_Err_def)
  have none: "Ev (LoopRecv Closed) \<notin> set ?evs"
    by simp
  have sel: "loop ?s = LSelect"
    by (simp add: step_def)
  from stage_leaves_only_when_input_closed [OF run, THEN conjunct2, THEN conjunct2] none
  have spin: "loop ?s \<noteq> LExit \<and> out_closes ?s = 0 \<and> err_closes ?s = 0
      \<and> (True \<and> loop ?s = LSelect \<longrightarrow> step_go (transformA ascii_ToLower) True LoopCtxDone ?s = Some ?s)
      \<and> (\<forall>v. True \<and> loop ?s = LAcquire v \<longrightarrow>
           step_go (transformA ascii_ToLower) True AcquireErr ?s
             = Some (?s\<lparr>stage_log := stage_log ?s @ [acquire_failed True], loop := LSelect\<rparr>))"
    by (rule mp)
  from spin have a: "out_closes ?s = 0"
    by (rule conjunct2 [THEN conjunct1])
  from spin have b: "err_closes ?s = 0"
    by (rule conjunct2 [THEN conjunct2, THEN conjunct1])
  from spin have "True \<and> loop ?s = LSelect \<longrightarrow> step_go (transformA ascii_ToLower) True LoopCtxDone ?s = Some ?s"
    by (rule conjunct2 [THEN conjunct2, THEN conjunct2, THEN conjunct1])
  with sel have d: "step_go (transformA ascii_ToLower) True LoopCtxDone ?s = Some ?s"
    by simp
  from run d a b show ?thesis
    by (intro conjI)
qed

section \<open>Properties of the merger\<close>

lemma Merge_go_cases [consumes 1, case_names recv recv_closed sent ctx_done panics wait]:
  assumes "Merge_go c ev m = Some m'"
  obtains
    i n where "ev = FwdRecv i (Got n)" "i < length (forwarders m)" "forwarders m ! i = FRange"
      "\<not> merge_panic m" "m' = m\<lparr>forwarders := (forwarders m)[i := FSelect n]\<rparr>"
  | i where "ev = FwdRecv i Closed" "i < length (forwarders m)" "forwarders m ! i = FRange"
      "\<not> merge_panic m" "m' = forwarder_return i m"
  | i n where "ev = FwdSent i n" "i < length (forwarders m)" "forwarders m ! i = FSelect n"
      "merge_closes m = 0" "\<not> merge_panic m"
      "m' = m\<lparr>forwarders := (forwarders m)[i := FRange], merge_sent := merge_sent m @ [n]\<rparr>"
  | i n where "ev = FwdCtxDone i" "c" "i < length (forwarders m)" "forwarders m ! i = FSelect n"
      "\<not> merge_panic m" "m' = forwarder_return i m"
  | i n where "ev = FwdSendPanics i" "i < length (forwarders m)" "forwarders m ! i = FSelect n"
      "0 < merge_closes m" "\<not> merge_panic m" "m' = m\<lparr>merge_panic := True\<rparr>"
  | "ev = WaitReturns" "wg m = 0" "\<not> closer_done m" "\<not> merge_panic m"
      "m' = m\<lparr>closer_done := True, merge_closes := merge_closes m + 1\<rparr>"
proof (cases ev)
  case (FwdRecv i r)
  with assms that(1,2) show ?thesis
    by (cases "forwarders m ! i"; cases r)
      (auto simp: Merge_go_def event_forwarder_def split: if_splits)
next
  case (FwdSent i n)
  with assms that(3) show ?thesis
    by (cases "forwarders m ! i")
      (auto simp: Merge_go_def event_forwarder_def split: if_splits)
next
  case (FwdCtxDone i)
  with assms that(4) show ?thesis
    by (cases "forwarders m ! i")
      (auto simp: Merge_go_def event_forwarder_def split: if_splits)
next
  case (FwdSendPanics i)
  with assms that(5) show ?thesis
    by (cases "forwarders m ! i")
      (auto simp: Merge_go_def event_forwarder_def split: if_splits)
next
  case WaitReturns
  with assms that(6) show ?thesis
    by (auto simp: Merge_go_def event_forwarder_def split: if_splits)
qed

lemma fan_in_go_cases [consumes 1, case_names send close recv_closed sent ctx_done panics wait]:
  assumes "fan_in_go c ev h = Some h'"
  obtains
    i v rest where "ev = SourceSend i" "i < length (sources h)" "i < length (source_closed h)"
      "\<not> source_closed h ! i" "sources h ! i = v # rest"
      "i < length (forwarders (merger h))" "forwarders (merger h) ! i = FRange"
      "\<not> merge_panic (merger h)"
      "h' = h\<lparr>sources := (sources h)[i := rest],
              merger := (merger h)\<lparr>forwarders := (forwarders (merger h))[i := FSelect v]\<rparr>\<rparr>"
  | i where "ev = SourceClose i" "i < length (sources h)" "i < length (source_closed h)"
      "\<not> source_closed h ! i" "sources h ! i = []"
      "h' = h\<lparr>source_closed := (source_closed h)[i := True]\<rparr>"
  | i where "ev = Mrg (FwdRecv i Closed)" "i < length (source_closed h)" "source_closed h ! i"
      "i < length (forwarders (merger h))" "forwarders (merger h) ! i = FRange"
      "\<not> merge_panic (merger h)" "h' = h\<lparr>merger := forwarder_return i (merger h)\<rparr>"
  | i n where "ev = Mrg (FwdSent i n)" "i < length (forwarders (merger h))"
      "forwarders (merger h) ! i = FSelect n" "merge_closes (merger h) = 0"
      "\<not> merge_panic (merger h)"
      "h' = h\<lparr>merger := (merger h)\<lparr>forwarders := (forwarders (merger h))[i := FRange],
                                    merge_sent := merge_sent (merger h) @ [n]\<rparr>\<rparr>"
  | i n where "ev = Mrg (FwdCtxDone i)" "c" "i < length (forwarders (merger h))"
      "forwarders (merger h) ! i = FSelect n" "\<not> merge_panic (merger h)"
      "h' = h\<lparr>merger := forwarder_return i (merger h)\<rparr>"
  | i n where "ev = Mrg (FwdSendPanics i)" "i < length (forwarders (merger h))"
      "forwarders (merger h) ! i = FSelect n" "0 < merge_closes (merger h)"
      "\<not> merge_panic (merger h)" "h' = h\<lparr>merger := (merger h)\<lparr>merge_panic := True\<rparr>\<rparr>"
  | "ev = Mrg WaitReturns" "wg (merger h) = 0" "\<not> closer_done (merger h)"
      "\<not> merge_panic (merger h)"
      "h' = h\<lparr>merger := (merger h)\<lparr>closer_done := True,
                                    merge_closes := merge_closes (merger h) + 1\<rparr>\<rparr>"
proof (cases ev)
  case (SourceSend i)
  with assms obtain v rest m' where a: "i < length (sources h)" "i < length (source_closed h)"
      "\<not> source_closed h ! i" "sources h ! i = v # rest"
    and m': "Merge_go c (FwdRecv i (Got v)) (merger h) = Some m'"
    and h': "h' = h\<lparr>sources := (sources h)[i := rest], merger := m'\<rparr>"
    by (auto split: if_splits list.splits option.splits)
  from m' show ?thesis
    by (cases rule: Merge_go_cases) (use a h' SourceSend that(1) in auto)
next
  case (SourceClose i)
  with assms that(2) show ?thesis
    by (auto split: if_splits)
next
  case (Mrg e)
  with assms obtain m' where m': "Merge_go c e (merger h) = Some m'"
    and h': "h' = h\<lparr>merger := m'\<rparr>"
    and ok: "case e of FwdRecv i (Got v) \<Rightarrow> False
          | FwdRecv i Closed \<Rightarrow> i < length (source_closed h) \<and> source_closed h ! i
          | _ \<Rightarrow> True"
    by (auto split: if_splits option.splits)
  from m' show ?thesis
  proof (cases rule: Merge_go_cases)
    case (recv i n)
    with ok show ?thesis by simp
  next
    case (recv_closed i)
    with ok h' Mrg that(3) show ?thesis by simp
  next
    case (sent i n)
    with h' Mrg that(4) show ?thesis by simp
  next
    case (ctx_done i n)
    with h' Mrg that(5) show ?thesis by simp
  next
    case (panics i n)
    with h' Mrg that(6) show ?thesis by simp
  next
    case wait
    with h' Mrg that(7) show ?thesis by simp
  qed
qed


lemma mset_concat_update:
  "i < length xss \<Longrightarrow>
   mset (concat (xss[i := ys])) + mset (xss ! i) = mset (concat xss) + mset ys"
proof (induction xss arbitrary: i)
  case Nil
  then show ?case by simp
next
  case (Cons xs xss)
  show ?case
  proof (cases i)
    case 0
    then show ?thesis by simp
  next
    case (Suc j)
    with Cons.prems have "j < length xss" by simp
    from Cons.IH [OF this] Suc show ?thesis
      by (simp add: ac_simps)
  qed
qed

lemma length_concat_update:
  assumes "i < length xss"
  shows "length (concat (xss[i := ys])) + length (xss ! i) = length (concat xss) + length ys"
proof -
  from mset_concat_update [OF assms, of ys]
  have "size (mset (concat (xss[i := ys])) + mset (xss ! i)) = size (mset (concat xss) + mset ys)"
    by simp
  then show ?thesis by simp
qed

lemma mset_held_update:
  assumes "i < length fs"
  shows "mset (concat (map held (fs[i := f]))) + mset (held (fs ! i))
       = mset (concat (map held fs)) + mset (held f)"
  using mset_concat_update [of i "map held fs" "held f"] assms
  by (simp add: map_update)

lemma length_held_update:
  assumes "i < length fs"
  shows "length (concat (map held (fs[i := f]))) + length (held (fs ! i))
       = length (concat (map held fs)) + length (held f)"
  using length_concat_update [of i "map held fs" "held f"] assms
  by (simp add: map_update)

lemma running_update:
  assumes "i < length fs"
  shows "length (filter (\<lambda>f. f \<noteq> FDone) (fs[i := f])) + (if fs ! i \<noteq> FDone then 1 else 0)
       = length (filter (\<lambda>f. f \<noteq> FDone) fs) + (if f \<noteq> FDone then 1 else 0)"
  using count_update [OF assms, of "\<lambda>f. f \<noteq> FDone" f] by simp

lemma open_update:
  assumes "i < length bs"
  shows "length (filter Not (bs[i := b])) + (if bs ! i then 0 else 1)
       = length (filter Not bs) + (if b then 0 else 1)"
  using count_update [OF assms, of Not b] by (auto split: if_splits)

lemma running_pos:
  assumes "i < length fs" and "fs ! i \<noteq> FDone"
  shows "1 \<le> length (filter (\<lambda>f. f \<noteq> FDone) fs)"
proof -
  from assms(1) have "fs ! i \<in> set fs" by (rule nth_mem)
  with assms(2) have "filter (\<lambda>f. f \<noteq> FDone) fs \<noteq> []"
    by (auto simp: filter_empty_conv)
  then show ?thesis
    by (cases "filter (\<lambda>f. f \<noteq> FDone) fs") simp_all
qed

lemma fan_in_ok_step:
  assumes ok: "fan_in_ok xss h" and go: "fan_in_go False ev h = Some h'"
  shows "fan_in_ok xss h' \<and> fan_in_left h' + 1 = fan_in_left h"
  using go
proof (cases rule: fan_in_go_cases)
  case (send i v rest)
  let ?fs = "forwarders (merger h)"
  from ok have total: "mset (merge_sent (merger h)) + mset (concat (map held ?fs))
      + mset (concat (sources h)) = mset (concat xss)"
    by (simp add: fan_in_ok_def)
  from send mset_held_update [of i ?fs "FSelect v"]
  have hand: "mset (concat (map held (?fs[i := FSelect v])))
      = add_mset v (mset (concat (map held ?fs)))"
    by (simp add: held_def)
  from send mset_concat_update [of i "sources h" rest]
  have src: "mset (concat (sources h)) = add_mset v (mset (concat ((sources h)[i := rest])))"
    by simp
  from total have cons: "mset (merge_sent (merger h))
      + mset (concat (map held (?fs[i := FSelect v])))
      + mset (concat ((sources h)[i := rest])) = mset (concat xss)"
    by (simp add: hand src)
  from send running_update [of i ?fs "FSelect v"]
  have run: "length (filter (\<lambda>f. f \<noteq> FDone) (?fs[i := FSelect v]))
      = length (filter (\<lambda>f. f \<noteq> FDone) ?fs)"
    by simp
  from send ok have "fan_in_ok xss h'"
    unfolding fan_in_ok_def using cons run
    by (auto simp: nth_list_update)
  moreover from send length_held_update [of i ?fs "FSelect v"]
    length_concat_update [of i "sources h" rest] run
  have "fan_in_left h' + 1 = fan_in_left h"
    by (simp add: fan_in_left_def held_def)
  ultimately show ?thesis by simp
next
  case (close i)
  from close ok have "fan_in_ok xss h'"
    unfolding fan_in_ok_def by (auto simp: nth_list_update)
  moreover from close open_update [of i "source_closed h" True]
  have "fan_in_left h' + 1 = fan_in_left h"
    by (simp add: fan_in_left_def)
  ultimately show ?thesis by simp
next
  case (recv_closed i)
  let ?fs = "forwarders (merger h)"
  from recv_closed running_pos [of i ?fs] ok have pos: "1 \<le> wg (merger h)"
    by (simp add: fan_in_ok_def)
  then have ret: "forwarder_return i (merger h)
      = (merger h)\<lparr>wg := wg (merger h) - 1, forwarders := ?fs[i := FDone]\<rparr>"
    by (simp add: forwarder_return_def)
  from recv_closed running_update [of i ?fs FDone]
  have run: "length (filter (\<lambda>f. f \<noteq> FDone) ?fs)
      = length (filter (\<lambda>f. f \<noteq> FDone) (?fs[i := FDone])) + 1"
    by simp
  from recv_closed mset_held_update [of i ?fs FDone]
  have hand: "mset (concat (map held (?fs[i := FDone]))) = mset (concat (map held ?fs))"
    by (simp add: held_def)
  from recv_closed length_held_update [of i ?fs FDone]
  have hand': "length (concat (map held (?fs[i := FDone]))) = length (concat (map held ?fs))"
    by (simp add: held_def)
  from recv_closed ok have "fan_in_ok xss h'"
    unfolding fan_in_ok_def ret
    by (auto simp: nth_list_update hand run)
  moreover from recv_closed have "fan_in_left h' + 1 = fan_in_left h"
    by (simp add: fan_in_left_def ret hand' run)
  ultimately show ?thesis by simp
next
  case (sent i n)
  let ?fs = "forwarders (merger h)"
  from ok have total: "mset (merge_sent (merger h)) + mset (concat (map held ?fs))
      + mset (concat (sources h)) = mset (concat xss)"
    by (simp add: fan_in_ok_def)
  from sent mset_held_update [of i ?fs FRange]
  have hand: "mset (concat (map held ?fs))
      = add_mset n (mset (concat (map held (?fs[i := FRange]))))"
    by (simp add: held_def)
  from sent length_held_update [of i ?fs FRange]
  have hand': "length (concat (map held ?fs))
      = length (concat (map held (?fs[i := FRange]))) + 1"
    by (simp add: held_def)
  from sent running_update [of i ?fs FRange]
  have run: "length (filter (\<lambda>f. f \<noteq> FDone) (?fs[i := FRange]))
      = length (filter (\<lambda>f. f \<noteq> FDone) ?fs)"
    by simp
  from total have cons: "mset (merge_sent (merger h) @ [n])
      + mset (concat (map held (?fs[i := FRange]))) + mset (concat (sources h))
      = mset (concat xss)"
    by (simp add: hand)
  from sent ok have "fan_in_ok xss h'"
    unfolding fan_in_ok_def using cons run
    by (auto simp: nth_list_update)
  moreover from sent have "fan_in_left h' + 1 = fan_in_left h"
    by (simp add: fan_in_left_def run hand')
  ultimately show ?thesis by simp
next
  case (ctx_done i n)
  then show ?thesis by simp
next
  case (panics i n)
  with ok running_pos [of i "forwarders (merger h)"] show ?thesis
    by (auto simp: fan_in_ok_def split: if_splits)
next
  case wait
  with ok show ?thesis
    by (auto simp: fan_in_ok_def fan_in_left_def)
qed


lemma concat_replicate_Nil: "concat (replicate n []) = []"
  by (induction n) simp_all

lemma fan_in_ok_init: "fan_in_ok xss (fan_in xss)"
  by (simp add: fan_in_ok_def fan_in_def Merge_def held_def concat_replicate_Nil)

lemma fan_in_left_init:
  "fan_in_left (fan_in xss) = 2 * length (concat xss) + 2 * length xss + 1"
  by (simp add: fan_in_left_def fan_in_def Merge_def held_def concat_replicate_Nil)

lemma fan_in_ok_run:
  assumes "exec (fan_in_go False) evs h0 = Some h" and "fan_in_ok xss h0"
  shows "fan_in_ok xss h \<and> length evs + fan_in_left h = fan_in_left h0"
  using assms
proof (induction evs arbitrary: h0)
  case Nil
  then show ?case by simp
next
  case (Cons e es)
  then obtain h1 where go: "fan_in_go False e h0 = Some h1"
    and rest: "exec (fan_in_go False) es h1 = Some h"
    by (auto split: option.splits)
  from fan_in_ok_step [OF Cons.prems(2) go]
  have ok1: "fan_in_ok xss h1" and left1: "fan_in_left h1 + 1 = fan_in_left h0"
    by simp_all
  from Cons.IH [OF rest ok1] left1 show ?case by simp
qed

lemma all_done:
  assumes "fan_in_ok xss h" and "wg (merger h) = 0" and "i < length xss"
  shows "forwarders (merger h) ! i = FDone"
proof (rule ccontr)
  assume "forwarders (merger h) ! i \<noteq> FDone"
  with assms(1,3) running_pos [of i "forwarders (merger h)"]
  have "1 \<le> wg (merger h)"
    by (simp add: fan_in_ok_def)
  with assms(2) show False by simp
qed

lemma some_running:
  assumes "fan_in_ok xss h" and "wg (merger h) \<noteq> 0"
  obtains i where "i < length xss" and "forwarders (merger h) ! i \<noteq> FDone"
proof -
  from assms have "filter (\<lambda>f. f \<noteq> FDone) (forwarders (merger h)) \<noteq> []"
    by (auto simp: fan_in_ok_def)
  then obtain f where "f \<in> set (forwarders (merger h))" and "f \<noteq> FDone"
    by (auto simp: filter_empty_conv)
  then obtain i where "i < length (forwarders (merger h))" and "forwarders (merger h) ! i \<noteq> FDone"
    by (auto simp: in_set_conv_nth)
  with assms(1) that show ?thesis
    by (simp add: fan_in_ok_def)
qed

lemma fan_in_progress:
  assumes ok: "fan_in_ok xss h" and pending: "\<not> closer_done (merger h)"
  shows "\<exists>ev. fan_in_go False ev h \<noteq> None"
proof (cases "wg (merger h) = 0")
  case True
  with ok pending have "fan_in_go False (Mrg WaitReturns) h \<noteq> None"
    by (simp add: fan_in_ok_def Merge_go_def event_forwarder_def)
  then show ?thesis ..
next
  case False
  from some_running [OF ok False] obtain i where i: "i < length xss"
    and run: "forwarders (merger h) ! i \<noteq> FDone"
    by blast
  from ok i have len: "i < length (sources h)" "i < length (source_closed h)"
      "i < length (forwarders (merger h))" and np: "\<not> merge_panic (merger h)"
    and cl: "merge_closes (merger h) = (if closer_done (merger h) then 1 else 0)"
    by (simp_all add: fan_in_ok_def)
  show ?thesis
  proof (cases "forwarders (merger h) ! i")
    case FRange
    show ?thesis
    proof (cases "source_closed h ! i")
      case True
      with FRange len np have "fan_in_go False (Mrg (FwdRecv i Closed)) h \<noteq> None"
        by (simp add: Merge_go_def event_forwarder_def)
      then show ?thesis ..
    next
      case False
      show ?thesis
      proof (cases "sources h ! i")
        case Nil
        with False len have "fan_in_go False (SourceClose i) h \<noteq> None"
          by simp
        then show ?thesis ..
      next
        case (Cons v rest)
        with False FRange len np have "fan_in_go False (SourceSend i) h \<noteq> None"
          by (simp add: Merge_go_def event_forwarder_def)
        then show ?thesis ..
      qed
    qed
  next
    case (FSelect n)
    with len np cl pending have "fan_in_go False (Mrg (FwdSent i n)) h \<noteq> None"
      by (simp add: Merge_go_def event_forwarder_def)
    then show ?thesis ..
  next
    case FDone
    with run show ?thesis by simp
  qed
qed

lemma fan_in_terminal:
  assumes ok: "fan_in_ok xss h" and closed: "closer_done (merger h)"
  shows "fan_in_go False ev h = None"
proof (rule ccontr)
  assume "fan_in_go False ev h \<noteq> None"
  then obtain h' where go: "fan_in_go False ev h = Some h'" by auto
  from ok closed have wg0: "wg (merger h) = 0"
    unfolding fan_in_ok_def by blast
  from ok have len: "length (forwarders (merger h)) = length xss"
      "length (source_closed h) = length xss"
    and fd: "\<forall>i < length xss. forwarders (merger h) ! i = FDone \<longrightarrow> source_closed h ! i"
    unfolding fan_in_ok_def by blast+
  from go show False
  proof (cases rule: fan_in_go_cases)
    case (send i v rest)
    with all_done [OF ok wg0, of i] len show False by simp
  next
    case (close i)
    with all_done [OF ok wg0, of i] len fd show False by simp
  next
    case (recv_closed i)
    with all_done [OF ok wg0, of i] len show False by simp
  next
    case (sent i n)
    with all_done [OF ok wg0, of i] len show False by simp
  next
    case (ctx_done i n)
    then show False by simp
  next
    case (panics i n)
    with all_done [OF ok wg0, of i] len show False by simp
  next
    case wait
    with closed show False by simp
  qed
qed


lemma concat_Nil_nth: "(\<And>i. i < length xs \<Longrightarrow> xs ! i = []) \<Longrightarrow> concat xs = []"
  by (simp add: concat_eq_Nil_conv all_set_conv_all_nth)

lemma fan_in_empty:
  "fan_in_go False (Mrg WaitReturns) (fan_in [])
     = Some ((fan_in [])\<lparr>merger := (Merge 0)\<lparr>closer_done := True, merge_closes := 1\<rparr>\<rparr>)"
  "ev \<noteq> Mrg WaitReturns \<Longrightarrow> fan_in_go False ev (fan_in []) = None"
proof -
  show "fan_in_go False (Mrg WaitReturns) (fan_in [])
     = Some ((fan_in [])\<lparr>merger := (Merge 0)\<lparr>closer_done := True, merge_closes := 1\<rparr>\<rparr>)"
    by (simp add: fan_in_def Merge_def Merge_go_def event_forwarder_def)
  show "fan_in_go False ev (fan_in []) = None" if "ev \<noteq> Mrg WaitReturns"
  proof (cases ev)
    case (SourceSend i)
    then show ?thesis by (simp add: fan_in_def)
  next
    case (SourceClose i)
    then show ?thesis by (simp add: fan_in_def)
  next
    case (Mrg e)
    with that show ?thesis
      by (cases e) (auto simp: fan_in_def Merge_def Merge_go_def event_forwarder_def
          split: recv.splits)
  qed
qed

text \<open>
  C3. \<^verbatim>\<open>Merge\<close> is run on \<open>N = length xss\<close> channels whose senders send the lists of
  \<open>xss\<close> and then close, with a consumer that takes every send on \<^verbatim>\<open>out\<close>, and cancel
  is never called. In every state of every such run no value is lost, duplicated or
  invented: what was sent on \<^verbatim>\<open>out\<close>, what the forwarders hold and what the senders
  still have is together the multiset of all input values. \<^verbatim>\<open>out\<close> is closed at most
  once, and no forwarder ever sends on the closed \<^verbatim>\<open>out\<close> (no panic). Once \<^verbatim>\<open>out\<close> is
  closed, every input channel has been closed, every forwarder has returned, and the values
  sent on \<^verbatim>\<open>out\<close> are the multiset union of the inputs, \<open>s\<^sub>1 + \<dots> + s\<^sub>N\<close> of them; and no
  event is possible any more. Before that some event is always possible, and every event
  uses up one of the \<open>2 (s\<^sub>1 + \<dots> + s\<^sub>N) + 2 N + 1\<close> outstanding ones, so every run that is
  continued as long as possible ends with \<^verbatim>\<open>out\<close> closed. For \<open>N = 0\<close> the close is the
  first and only event.
\<close>

theorem Merge_emits_all_and_closes_last:
  assumes "exec (fan_in_go False) evs (fan_in xss) = Some h"
  shows "mset (merge_sent (merger h)) + mset (concat (map held (forwarders (merger h))))
           + mset (concat (sources h)) = sum_list (map mset xss)
       \<and> (0 < merge_closes (merger h) \<longrightarrow>
            (\<forall>i < length xss. source_closed h ! i \<and> forwarders (merger h) ! i = FDone)
            \<and> mset (merge_sent (merger h)) = sum_list (map mset xss)
            \<and> length (merge_sent (merger h)) = sum_list (map length xss)
            \<and> (\<forall>ev. fan_in_go False ev h = None))
       \<and> merge_closes (merger h) \<le> 1 \<and> \<not> merge_panic (merger h)
       \<and> (merge_closes (merger h) = 0 \<longrightarrow> (\<exists>ev. fan_in_go False ev h \<noteq> None))
       \<and> length evs + fan_in_left h = 2 * sum_list (map length xss) + 2 * length xss + 1
       \<and> (xss = [] \<longrightarrow>
            fan_in_go False (Mrg WaitReturns) (fan_in xss)
              = Some ((fan_in xss)\<lparr>merger := (Merge 0)\<lparr>closer_done := True, merge_closes := 1\<rparr>\<rparr>)
            \<and> (\<forall>ev. ev \<noteq> Mrg WaitReturns \<longrightarrow> fan_in_go False ev (fan_in xss) = None))"
proof -
  from fan_in_ok_run [OF assms fan_in_ok_init]
  have ok: "fan_in_ok xss h" and left: "length evs + fan_in_left h = fan_in_left (fan_in xss)"
    by simp_all
  from ok have total: "mset (merge_sent (merger h))
      + mset (concat (map held (forwarders (merger h)))) + mset (concat (sources h))
      = sum_list (map mset xss)"
    unfolding fan_in_ok_def by (simp add: mset_concat)
  from ok have once: "merge_closes (merger h) = (if closer_done (merger h) then 1 else 0)"
    and np: "\<not> merge_panic (merger h)"
    unfolding fan_in_ok_def by blast+
  have closed: "0 < merge_closes (merger h) \<longrightarrow>
      (\<forall>i < length xss. source_closed h ! i \<and> forwarders (merger h) ! i = FDone)
      \<and> mset (merge_sent (merger h)) = sum_list (map mset xss)
      \<and> length (merge_sent (merger h)) = sum_list (map length xss)
      \<and> (\<forall>ev. fan_in_go False ev h = None)"
  proof
    assume "0 < merge_closes (merger h)"
    with once have cd: "closer_done (merger h)"
      by (simp split: if_splits)
    with ok have wg0: "wg (merger h) = 0"
      unfolding fan_in_ok_def by blast
    from ok have len: "length (forwarders (merger h)) = length xss"
        "length (sources h) = length xss"
      and fd: "\<forall>i < length xss. forwarders (merger h) ! i = FDone \<longrightarrow> source_closed h ! i"
      and ce: "\<forall>i < length xss. source_closed h ! i \<longrightarrow> sources h ! i = []"
      unfolding fan_in_ok_def by blast+
    have gone: "forwarders (merger h) ! i = FDone" if "i < length xss" for i
      using all_done [OF ok wg0 that] .
    have cl: "source_closed h ! i" if "i < length xss" for i
      using that fd gone by blast
    have hand: "concat (map held (forwarders (merger h))) = []"
      by (rule concat_Nil_nth) (simp add: len gone held_def)
    have src: "concat (sources h) = []"
      by (rule concat_Nil_nth) (use ce cl len in simp)
    from total have all: "mset (merge_sent (merger h)) = sum_list (map mset xss)"
      unfolding hand src by simp
    then have "size (mset (merge_sent (merger h))) = size (mset (concat xss))"
      by (simp add: mset_concat)
    then have count: "length (merge_sent (merger h)) = sum_list (map length xss)"
      by (simp add: length_concat)
    have stop: "\<forall>ev. fan_in_go False ev h = None"
      using fan_in_terminal [OF ok cd] by (rule allI)
    have both: "\<forall>i < length xss. source_closed h ! i \<and> forwarders (merger h) ! i = FDone"
      using gone cl by (intro allI impI conjI)
    from both all count stop
    show "(\<forall>i < length xss. source_closed h ! i \<and> forwarders (merger h) ! i = FDone)
      \<and> mset (merge_sent (merger h)) = sum_list (map mset xss)
      \<and> length (merge_sent (merger h)) = sum_list (map length xss)
      \<and> (\<forall>ev. fan_in_go False ev h = None)"
      by (intro conjI)
  qed
  from once have le: "merge_closes (merger h) \<le> 1"
    by simp
  have live: "merge_closes (merger h) = 0 \<longrightarrow> (\<exists>ev. fan_in_go False ev h \<noteq> None)"
  proof
    assume "merge_closes (merger h) = 0"
    with once have "\<not> closer_done (merger h)"
      by (simp split: if_splits)
    from fan_in_progress [OF ok this] show "\<exists>ev. fan_in_go False ev h \<noteq> None" .
  qed
  from left have count: "length evs + fan_in_left h
      = 2 * sum_list (map length xss) + 2 * length xss + 1"
    by (simp add: fan_in_left_init length_concat)
  have empty: "xss = [] \<longrightarrow>
      fan_in_go False (Mrg WaitReturns) (fan_in xss)
        = Some ((fan_in xss)\<lparr>merger := (Merge 0)\<lparr>closer_done := True, merge_closes := 1\<rparr>\<rparr>)
      \<and> (\<forall>ev. ev \<noteq> Mrg WaitReturns \<longrightarrow> fan_in_go False ev (fan_in xss) = None)"
    using fan_in_empty by (intro impI conjI allI) simp_all
  from total closed le np live count empty show ?thesis
    by (intro conjI)
qed

theorem Merge_emits_all_and_closes_last_witness:
  "exec (fan_in_go False)
     [SourceSend 0, SourceSend 1, Mrg (FwdSent 1 ''b''), Mrg (FwdSent 0 ''a''), SourceSend 1,
      SourceClose 0, Mrg (FwdRecv 0 Closed), Mrg (FwdSent 1 ''c''), SourceClose 1,
      Mrg (FwdRecv 1 Closed), Mrg WaitReturns]
     (fan_in [[''a''], [''b'', ''c'']])
   = Some \<lparr>sources = [[], []], source_closed = [True, True],
           merger = \<lparr>wg = 0, forwarders = [FDone, FDone], closer_done = True, merge_closes = 1,
                     merge_sent = [''b'', ''a'', ''c''], merge_panic = False\<rparr>\<rparr>
   \<and> mset [''b'', ''a'', ''c''] = sum_list (map mset [[''a''], [''b'', ''c'']])
   \<and> length [''b'', ''a'', ''c''] = sum_list (map length [[''a''], [''b'', ''c'']])"
proof -
  let ?h = "\<lparr>sources = [[], []], source_closed = [True, True],
           merger = \<lparr>wg = 0, forwarders = [FDone, FDone], closer_done = True, merge_closes = 1,
                     merge_sent = [''b'', ''a'', ''c''], merge_panic = False\<rparr>\<rparr>"
  have run: "exec (fan_in_go False)
     [SourceSend 0, SourceSend 1, Mrg (FwdSent 1 ''b''), Mrg (FwdSent 0 ''a''), SourceSend 1,
      SourceClose 0, Mrg (FwdRecv 0 Closed), Mrg (FwdSent 1 ''c''), SourceClose 1,
      Mrg (FwdRecv 1 Closed), Mrg WaitReturns]
     (fan_in [[''a''], [''b'', ''c'']]) = Some ?h"
    by (simp add: fan_in_def Merge_def Merge_go_def event_forwarder_def forwarder_return_def)
  have closed: "0 < merge_closes (merger ?h)"
    by simp
  from Merge_emits_all_and_closes_last [OF run, THEN conjunct2, THEN conjunct1] closed
  have "mset (merge_sent (merger ?h)) = sum_list (map mset [[''a''], [''b'', ''c'']])"
    and "length (merge_sent (merger ?h)) = sum_list (map length [[''a''], [''b'', ''c'']])"
    by blast+
  then have "mset [''b'', ''a'', ''c''] = sum_list (map mset [[''a''], [''b'', ''c'']])"
    and "length [''b'', ''a'', ''c''] = sum_list (map length [[''a''], [''b'', ''c'']])"
    by simp_all
  with run show ?thesis
    by (intro conjI)
qed


section \<open>Properties of the assembled pipeline\<close>

text \<open>
  C6. As stated the claim fails: \<^verbatim>\<open>step\<close> has the parameters \<^verbatim>\<open>ctx\<close>, \<^verbatim>\<open>inputChannel\<close> and
  \<^verbatim>\<open>fn\<close> only, and returns two channels and no error. A construction as the claim words
  it rejects the parallelism 0 and gives a stage of capacity 1 for the parallelism 1;
  \<^verbatim>\<open>step\<close> gives the same running stage of capacity 2 whatever the caller wants, and
  both stages of \<^verbatim>\<open>main\<close> are that stage.
\<close>

theorem step_has_no_parallelism_parameter:
  "spec_Stage 0 = (Inl InvalidParallelism :: config_error + (string, string) stage)
   \<and> spec_Stage 0 \<noteq> Inr (step1 main)
   \<and> spec_Stage 1 \<noteq> Inr (step1 main)
   \<and> step1 main = step \<and> step2 main = step
   \<and> limit (step1 main) = 2 \<and> limit (step2 main) = 2"
  by (simp add: spec_Stage_def main_def producer_def step_def NewWeighted_def)

text \<open>
  C6, amended. Stage construction takes no parallelism from the caller: every stage is
  built with the fixed permit capacity 2, a positive number, and the construction has no
  error result. It agrees with a construction from a caller-supplied \<open>K\<close> exactly for
  \<open>K = 2\<close>.
\<close>

theorem step_has_fixed_limit:
  "limit (step :: ('i, 'o) stage) = 2
   \<and> sem1 (step :: ('i, 'o) stage) = \<lparr>sem_size = 2, sem_cur = 0\<rparr>
   \<and> loop (step :: ('i, 'o) stage) = LSelect
   \<and> (spec_Stage K = Inr (step :: ('i, 'o) stage)) = (K = 2)"
  by (auto simp: spec_Stage_def step_def NewWeighted_def)

text \<open>
  C2. When the sink, not yet returned, receives a non-nil error, it logs it and calls
  cancel in that same iteration: the context is cancelled, the call is counted, and the
  sink goes on looping. In the assembled program an action turns the context from not
  cancelled to cancelled only if it is the sink's receive of a non-nil error from the
  merged error stream, or the deferred \<^verbatim>\<open>cancel()\<close> of \<^verbatim>\<open>main\<close>, which runs after the sink
  has returned. No action of the producer, of a stage (a failing \<^verbatim>\<open>fn\<close> included) or of
  the merger cancels, and the sink calls cancel on no other event.
\<close>

theorem sink_alone_cancels_on_error:
  assumes "main_go ToLower Title a s = Some s'"
  shows "(\<forall>i m. a = MergeToSink i (Some m) \<longrightarrow>
            ctx s' \<and> sink_log (the_sink s') = sink_log (the_sink s) @ [''error:  '' @ m]
            \<and> sink_cancels (the_sink s') = sink_cancels (the_sink s) + 1
            \<and> \<not> sink_returned (the_sink s'))
       \<and> (ctx s' \<and> \<not> ctx s \<longrightarrow>
            (\<exists>i m. a = MergeToSink i (Some m)) \<or> (a = MainReturn \<and> sink_returned (the_sink s)))
       \<and> (sink_cancels (the_sink s') \<noteq> sink_cancels (the_sink s) \<longrightarrow>
            (\<exists>i m. a = MergeToSink i (Some m)))
       \<and> (\<forall>c k r m. \<not> sink_returned k \<and> recv_error r = Some m \<longrightarrow>
            sink_go (SinkErr r) (c, k)
              = Some (True, k\<lparr>sink_log := sink_log k @ [''error:  '' @ m],
                              sink_cancels := sink_cancels k + 1\<rparr>))"
proof -
  from assms have go: "action_go ToLower Title a s = Some s'"
    by (simp add: main_go_def split: if_splits)
  have sink_err: "sink_go (SinkErr r) (c, k)
      = Some (True, k\<lparr>sink_log := sink_log k @ [''error:  '' @ m],
                      sink_cancels := sink_cancels k + 1\<rparr>)"
    if "\<not> sink_returned k \<and> recv_error r = Some m" for c k r m
    using that by simp
  have on_error: "ctx s' \<and> sink_log (the_sink s') = sink_log (the_sink s) @ [''error:  '' @ m]
      \<and> sink_cancels (the_sink s') = sink_cancels (the_sink s) + 1
      \<and> \<not> sink_returned (the_sink s')"
    if "a = MergeToSink i (Some m)" for i m
    using go that
    by (auto simp: recv_error_def split: option.splits prod.splits if_splits)
  have others: "ctx s' = ctx s \<and> sink_cancels (the_sink s') = sink_cancels (the_sink s)"
    if "\<not> (\<exists>i m. a = MergeToSink i (Some m))" and "a \<noteq> MainReturn"
  proof (cases a)
    case (Sink ev)
    with go show ?thesis
      by (cases ev)
        (auto simp: sink_alone_def recv_error_def ctx_Err_def
          split: option.splits prod.splits if_splits recv.splits)
  next
    case (MergeToSink i e)
    with that(1) have "e = None" by (cases e) auto
    with go MergeToSink show ?thesis
      by (auto simp: recv_error_def split: option.splits prod.splits if_splits)
  next
    case (Step2ToSink i v)
    with go show ?thesis
      by (auto split: option.splits prod.splits if_splits)
  qed (use go that(2) in \<open>auto split: option.splits prod.splits if_splits\<close>)
  have main_ret: "sink_returned (the_sink s) \<and> sink_cancels (the_sink s') = sink_cancels (the_sink s)"
    if "a = MainReturn"
    using go that by (auto split: if_splits)
  from on_error others main_ret sink_err show ?thesis
    by (intro conjI allI impI) blast+
qed


lemma reach_before_error:
  "exec (main_go ascii_ToLower ascii_Title)
     [ProducerToStep1 ''FOO'', Step1 AcquireNil, Step1 (Worker 0 Wake), Step1 (Worker 0 Return),
      Step1ToStep2 0 ''foo'', Step2 AcquireNil, Step2 (Worker 0 Wake), Step2 (Worker 0 Return),
      Step2ToMerge 0 ''oh no'']
     main = Some before_error"
  by code_simp

lemma error_received:
  "main_go ascii_ToLower ascii_Title (MergeToSink 1 (Some ''oh no'')) before_error
    = Some (before_error\<lparr>ctx := True, allErrors := (Merge 2)\<lparr>merge_sent := [Some ''oh no'']\<rparr>,
         the_sink := sink\<lparr>sink_log := [''error:  oh no''], sink_cancels := 1\<rparr>\<rparr>)"
  by code_simp

theorem sink_alone_cancels_on_error_witness:
  "exec (main_go ascii_ToLower ascii_Title)
     [ProducerToStep1 ''FOO'', Step1 AcquireNil, Step1 (Worker 0 Wake), Step1 (Worker 0 Return),
      Step1ToStep2 0 ''foo'', Step2 AcquireNil, Step2 (Worker 0 Wake), Step2 (Worker 0 Return),
      Step2ToMerge 0 ''oh no'']
     main = Some before_error
   \<and> \<not> ctx before_error
   \<and> main_go ascii_ToLower ascii_Title (MergeToSink 1 (Some ''oh no'')) before_error
     = Some (before_error\<lparr>ctx := True, allErrors := (Merge 2)\<lparr>merge_sent := [Some ''oh no'']\<rparr>,
          the_sink := sink\<lparr>sink_log := [''error:  oh no''], sink_cancels := 1\<rparr>\<rparr>)
   \<and> sink_cancels (the_sink before_error) + 1 = 1"
proof -
  let ?s' = "before_error\<lparr>ctx := True, allErrors := (Merge 2)\<lparr>merge_sent := [Some ''oh no'']\<rparr>,
         the_sink := sink\<lparr>sink_log := [''error:  oh no''], sink_cancels := 1\<rparr>\<rparr>"
  have fresh: "\<not> ctx before_error"
    by (simp add: before_error_def main_def producer_def)
  from sink_alone_cancels_on_error [OF error_received, THEN conjunct1, rule_format, OF refl]
  have "sink_cancels (the_sink ?s') = sink_cancels (the_sink before_error) + 1"
    by (elim conjE)
  then have "sink_cancels (the_sink before_error) + 1 = 1"
    by simp
  with reach_before_error fresh error_received show ?thesis
    by (intro conjI)
qed

section \<open>What the sink can receive\<close>













































end
